theory Spec2Isabelle
  imports Complex_Main "HOL-Library.Sublist"
begin

section \<open>Strings\<close>

text \<open>
  JavaScript strings are modelled as lists of characters. \<open>toLowerCase\<close> is modelled on
  ASCII: it maps the capital letters A to Z to their small letters and leaves every other
  character alone, whereas \<open>String.prototype.toLowerCase\<close> also lowers the cased letters
  outside ASCII. The program uses the result only to compare it against the literals
  \<open>image/\<close>, \<open>video/\<close>, \<open>thumb_\<close>, \<open>_poster.jpg\<close> and \<open>_output.mp4\<close>, which are
  ASCII; the statements below are about content types and file names of ASCII characters.
\<close>

definition lowerChar :: "char \<Rightarrow> char" where
  "lowerChar c =
     (case map_of (zip ''ABCDEFGHIJKLMNOPQRSTUVWXYZ'' ''abcdefghijklmnopqrstuvwxyz'') c of
        None \<Rightarrow> c
      | Some d \<Rightarrow> d)"

definition toLowerCase :: "string \<Rightarrow> string" where
  "toLowerCase s = map lowerChar s"

definition startsWith :: "string \<Rightarrow> string \<Rightarrow> bool" where
  "startsWith s p = prefix p s"

definition endsWith :: "string \<Rightarrow> string \<Rightarrow> bool" where
  "endsWith s p = suffix p s"

text \<open>
  \<open>s.replace(/\.[^/.]+$/, x)\<close>: the pattern matches a dot followed by one or more
  characters that are neither a slash nor a dot, up to the end of the string. Since no dot
  may follow, a match can only start at the last dot of \<open>s\<close>. When the pattern does not
  match, \<open>replace\<close> returns \<open>s\<close> unchanged.
\<close>

definition hasExtension :: "string \<Rightarrow> bool" where
  "hasExtension s =
     (let ext = takeWhile (\<lambda>c. c \<noteq> CHR ''.'') (rev s)
      in length ext < length s \<and> ext \<noteq> [] \<and> CHR ''/'' \<notin> set ext)"

definition replaceExtension :: "string \<Rightarrow> string \<Rightarrow> string" where
  "replaceExtension s x =
     (if hasExtension s
      then take (length s - Suc (length (takeWhile (\<lambda>c. c \<noteq> CHR ''.'') (rev s)))) s @ x
      else s)"

section \<open>The POSIX functions of Node's path module\<close>

text \<open>
  \<open>path.basename\<close> scans from the end: trailing slashes are skipped, then the
  characters up to the next slash are the base name.
\<close>

definition path_basename :: "string \<Rightarrow> string" where
  "path_basename path =
     rev (takeWhile (\<lambda>c. c \<noteq> CHR ''/'') (dropWhile (\<lambda>c. c = CHR ''/'') (rev path)))"

text \<open>
  \<open>path.dirname\<close> scans the indices \<open>length - 1\<close> down to \<open>1\<close> in the same way; the
  slash it stops at is the end of the directory part.
\<close>

definition path_dirname :: "string \<Rightarrow> string" where
  "path_dirname path =
     (if path = [] then ''.''
      else
        let hasRoot = (hd path = CHR ''/'');
            rest = dropWhile (\<lambda>c. c \<noteq> CHR ''/'')
                     (dropWhile (\<lambda>c. c = CHR ''/'') (rev (tl path)))
        in if rest = [] then (if hasRoot then ''/'' else ''.'')
           else if hasRoot \<and> length rest = 1 then ''//''
           else take (length rest) path)"

fun splitSlash :: "string \<Rightarrow> string list" where
  "splitSlash [] = [[]]"
| "splitSlash (c # cs) =
     (if c = CHR ''/'' then [] # splitSlash cs
      else (case splitSlash cs of
              [] \<Rightarrow> [[c]]
            | s # ss \<Rightarrow> (c # s) # ss))"

fun joinSlash :: "string list \<Rightarrow> string" where
  "joinSlash [] = []"
| "joinSlash [s] = s"
| "joinSlash (s # t # ss) = s @ CHR ''/'' # joinSlash (t # ss)"

text \<open>
  \<open>normalizeString\<close>: empty and \<open>.\<close> segments are dropped; \<open>..\<close> removes the
  segment before it unless there is none or it is \<open>..\<close> itself, in which case \<open>..\<close> is
  kept for a relative path and dropped for an absolute one. \<open>res\<close> holds the segments
  kept so far, the last one first.
\<close>

fun normalizeSegments :: "bool \<Rightarrow> string list \<Rightarrow> string list \<Rightarrow> string list" where
  "normalizeSegments allowAboveRoot res [] = rev res"
| "normalizeSegments allowAboveRoot res (s # ss) =
     (if s = [] \<or> s = ''.'' then normalizeSegments allowAboveRoot res ss
      else if s = ''..'' then
        (if res \<noteq> [] \<and> hd res \<noteq> ''..'' then normalizeSegments allowAboveRoot (tl res) ss
         else if allowAboveRoot then normalizeSegments allowAboveRoot (''..'' # res) ss
         else normalizeSegments allowAboveRoot res ss)
      else normalizeSegments allowAboveRoot (s # res) ss)"

definition normalizeString :: "string \<Rightarrow> bool \<Rightarrow> string" where
  "normalizeString path allowAboveRoot =
     joinSlash (normalizeSegments allowAboveRoot [] (splitSlash path))"

definition path_normalize :: "string \<Rightarrow> string" where
  "path_normalize path =
     (if path = [] then ''.''
      else
        let isAbsolute = (hd path = CHR ''/'');
            trailingSeparator = (last path = CHR ''/'');
            p = normalizeString path (\<not> isAbsolute)
        in if p = [] then (if isAbsolute then ''/'' else if trailingSeparator then ''./'' else ''.'')
           else (if isAbsolute then ''/'' else []) @ p @ (if trailingSeparator then ''/'' else []))"

text \<open>\<open>path.join\<close> of two arguments: the non-empty ones, joined by a slash, normalized.\<close>

definition path_join :: "string \<Rightarrow> string \<Rightarrow> string" where
  "path_join a b =
     (if a = [] \<and> b = [] then ''.''
      else if a = [] then path_normalize b
      else if b = [] then path_normalize a
      else path_normalize (a @ ''/'' @ b))"

section \<open>Classification and naming\<close>

definition THUMB_MAX_HEIGHT :: int where
  "THUMB_MAX_HEIGHT = 300"

definition THUMB_MAX_WIDTH :: int where
  "THUMB_MAX_WIDTH = 300"

definition THUMB_PREFIX :: string where
  "THUMB_PREFIX = ''thumb_''"

text \<open>The guards of \<open>generateThumbnail\<close> on the content type (lines 46, 63 and 92).\<close>

definition isImage :: "string \<Rightarrow> bool" where
  "isImage contentType = startsWith (toLowerCase contentType) ''image/''"

definition isVideo :: "string \<Rightarrow> bool" where
  "isVideo contentType = startsWith (toLowerCase contentType) ''video/''"

definition isEligible :: "string \<Rightarrow> bool" where
  "isEligible contentType = (\<not> (\<not> isImage contentType \<and> \<not> isVideo contentType))"

text \<open>
  The guards on the file name that end the invocation early (lines 65 and 94), in the
  order of the surrounding \<open>if\<close> / \<open>else if\<close> on the content type.
\<close>

definition isAlreadyDerived :: "string \<Rightarrow> string \<Rightarrow> bool" where
  "isAlreadyDerived filePath contentType =
     (let fileName = path_basename filePath
      in if isImage contentType
         then startsWith (toLowerCase fileName) THUMB_PREFIX
              \<or> endsWith (toLowerCase fileName) ''_poster.jpg''
         else if isVideo contentType
         then endsWith (toLowerCase fileName) ''_output.mp4''
         else False)"

text \<open>The keys of the derived objects, named as the variables that hold them.\<close>

definition thumbFilePath :: "string \<Rightarrow> string" where
  "thumbFilePath filePath =
     path_normalize
       (path_join (path_dirname filePath) (THUMB_PREFIX @ path_basename filePath))"

definition mp4FilePath :: "string \<Rightarrow> string" where
  "mp4FilePath filePath =
     path_normalize
       (path_join (path_dirname filePath)
          (replaceExtension (path_basename filePath) ''_output.mp4''))"

definition mp4FilePathThumb :: "string \<Rightarrow> string" where
  "mp4FilePathThumb filePath =
     path_normalize
       (path_join (path_dirname filePath)
          (replaceExtension (path_basename filePath) ''_thumb_output.mp4''))"

definition remotePath :: "string \<Rightarrow> string" where
  "remotePath filePath = replaceExtension filePath ''_poster.jpg''"

section \<open>Numbers\<close>

text \<open>
  A width or height read off a probed stream is a number or \<open>undefined\<close> (a stream
  that is not a picture has neither). Comparing \<open>undefined\<close> with a number is false.
\<close>

definition lessThan_js :: "int option \<Rightarrow> int \<Rightarrow> bool" where
  "lessThan_js a b = (case a of None \<Rightarrow> False | Some x \<Rightarrow> x < b)"

definition greaterThan_js :: "int option \<Rightarrow> int \<Rightarrow> bool" where
  "greaterThan_js a b = (case a of None \<Rightarrow> False | Some x \<Rightarrow> x > b)"

text \<open>Decimal notation of an integer, as string concatenation prints it.\<close>

definition digitChar :: "nat \<Rightarrow> char" where
  "digitChar d = ''0123456789'' ! d"

fun showNat :: "nat \<Rightarrow> string" where
  "showNat n = (if n < 10 then [digitChar n] else showNat (n div 10) @ [digitChar (n mod 10)])"

declare showNat.simps [simp del]

definition showInt :: "int \<Rightarrow> string" where
  "showInt i = (if i < 0 then CHR ''-'' # showNat (nat (- i)) else showNat (nat i))"

text \<open>
  JavaScript numbers are IEEE 754 double-precision values. A number is modelled by the
  rational it stands for, and \<open>double\<close> rounds a rational to the nearest value with a
  significand of 53 bits, a tie going to the even significand. The range of the exponent
  is not bounded: the numbers of this program stay far from overflow and underflow. An
  arithmetic operation of the program is the exact operation followed by this rounding.
\<close>

text \<open>The number of binary digits of a natural number.\<close>

fun bitLength :: "nat \<Rightarrow> nat" where
  "bitLength n = (if n = 0 then 0 else Suc (bitLength (n div 2)))"

declare bitLength.simps [simp del]

text \<open>The exponent \<open>e\<close> of a positive number: \<open>2\<^sup>e \<le> x < 2\<^sup>e\<^sup>+\<^sup>1\<close>.\<close>

definition exponentOf :: "rat \<Rightarrow> int" where
  "exponentOf x =
     (if x \<ge> 1 then int (bitLength (nat \<lfloor>x\<rfloor>)) - 1
      else - int (bitLength (nat (\<lceil>1 / x\<rceil> - 1))))"

text \<open>The nearest integer, a tie going to the even one.\<close>

definition roundHalfEven :: "rat \<Rightarrow> int" where
  "roundHalfEven s =
     (let f = \<lfloor>s\<rfloor>; r = s - of_int f
      in if r < 1 / 2 then f
         else if r > 1 / 2 then f + 1
         else if even f then f else f + 1)"

definition double :: "rat \<Rightarrow> rat" where
  "double x =
     (if x = 0 then 0
      else
        let e = exponentOf \<bar>x\<bar>;
            m = of_int (roundHalfEven (\<bar>x\<bar> * 2 powi (52 - e))) * 2 powi (e - 52)
        in if x < 0 then - m else m)"

section \<open>The world of one invocation\<close>

record storage_object =
  object_name :: string
  object_bucket :: string
  object_contentType :: string

record stream =
  codec_type :: string
  codec_name :: "string option"
  width :: "int option"
  height :: "int option"

record dimensions =
  dim_width :: "int option"
  dim_height :: "int option"

record upload_options =
  destination :: string
  uploadType :: "string option"
  resumable :: "bool option"
  isPublic :: bool
  metadata :: "(string \<times> string) list"

datatype artifact = Thumbnail | Transcode | Preview | Poster

text \<open>
  The calls that leave the function. A transform and an upload carry the kind of artifact
  they work on; the kind is a label of the call site and does not influence the run.
\<close>

datatype event =
    Mkdirp string
  | Download string string
  | Ffprobe string
  | Spawn artifact string "string list"
  | ConvertFile artifact string string "string option"
  | CreatePosterFromVideo artifact string string nat nat
  | Upload artifact string upload_options
  | UnlinkSync string

datatype error = StoreError | ProbeError | TransformError | FsError

text \<open>
  Where an invocation ends when it ends normally: one label per \<open>return\<close> statement,
  and \<open>Completed\<close> for running off the end of the function body.
\<close>

datatype exit_point = NotMedia | AlreadyDerived | BelowThumbBox | CodecIsH264 | Completed

text \<open>
  The result of a step: it continues with a value, the function returns, an exception or a
  rejected promise leaves the function (the invocation fails), or an awaited promise is
  never settled.
\<close>

datatype 'a step = Next 'a | Exit exit_point | Throw error | Hang

text \<open>
  The local files that exist, and the calls made so far, each with whether it succeeded.
\<close>

record world =
  files :: "string set"
  trace :: "(event \<times> bool) list"

datatype probe_outcome = ProbeErr | Metadata "stream list"

text \<open>
  What the surroundings answer. The function body has no loop, so each call site runs at
  most once in an invocation and one answer per call site describes every possible run.
\<close>

record environment =
  tmpdir :: string
  mkdirp_ok :: bool
  download_ok :: bool
  picDimensions_probe :: probe_outcome
  spawn_ok :: bool
  thumb_upload_ok :: bool
  codec_probe :: probe_outcome
  convert_ok :: bool
  mp4_upload_ok :: bool
  poster_ok :: bool
  poster_upload_ok :: bool
  dimensions_probe :: probe_outcome
  convertThumb_ok :: bool
  mp4Thumb_upload_ok :: bool

definition record_event :: "event \<Rightarrow> bool \<Rightarrow> world \<Rightarrow> world" where
  "record_event e ok w = w\<lparr>trace := trace w @ [(e, ok)]\<rparr>"

definition andThen ::
  "(world \<Rightarrow> 'a step \<times> world) \<Rightarrow> ('a \<Rightarrow> world \<Rightarrow> 'b step \<times> world) \<Rightarrow> world \<Rightarrow> 'b step \<times> world" where
  "andThen m f w =
     (case m w of
        (Next a, w') \<Rightarrow> f a w'
      | (Exit x, w') \<Rightarrow> (Exit x, w')
      | (Throw e, w') \<Rightarrow> (Throw e, w')
      | (Hang, w') \<Rightarrow> (Hang, w'))"

definition return :: "exit_point \<Rightarrow> world \<Rightarrow> 'a step \<times> world" where
  "return x w = (Exit x, w)"

subsection \<open>The calls\<close>

definition mkdirp :: "bool \<Rightarrow> string \<Rightarrow> world \<Rightarrow> unit step \<times> world" where
  "mkdirp ok dir w =
     (if ok then Next () else Throw FsError, record_event (Mkdirp dir) ok w)"

text \<open>A download that succeeds has written its destination.\<close>

definition download :: "bool \<Rightarrow> string \<Rightarrow> string \<Rightarrow> world \<Rightarrow> unit step \<times> world" where
  "download ok key dest w =
     (if ok
      then (Next (), (record_event (Download key dest) True w)\<lparr>files := insert dest (files w)\<rparr>)
      else (Throw StoreError, record_event (Download key dest) False w))"

definition upload ::
  "bool \<Rightarrow> artifact \<Rightarrow> string \<Rightarrow> upload_options \<Rightarrow> world \<Rightarrow> unit step \<times> world" where
  "upload ok kind localPath options w =
     (if ok then Next () else Throw StoreError, record_event (Upload kind localPath options) ok w)"

text \<open>\<open>fs.unlinkSync\<close> removes an existing file and throws when there is none.\<close>

definition unlinkSync :: "string \<Rightarrow> world \<Rightarrow> unit step \<times> world" where
  "unlinkSync p w =
     (if p \<in> files w
      then (Next (), (record_event (UnlinkSync p) True w)\<lparr>files := files w - {p}\<rparr>)
      else (Throw FsError, record_event (UnlinkSync p) False w))"

text \<open>
  \<open>spawn('convert', [input, '-thumbnail', geometry, output])\<close>: a run that succeeds has
  written its output.
\<close>

definition spawn_convert ::
  "bool \<Rightarrow> string \<Rightarrow> string \<Rightarrow> string \<Rightarrow> world \<Rightarrow> unit step \<times> world" where
  "spawn_convert ok input geometry output w =
     (let e = Spawn Thumbnail ''convert'' [input, ''-thumbnail'', geometry, output]
      in if ok
         then (Next (), (record_event e True w)\<lparr>files := insert output (files w)\<rparr>)
         else (Throw TransformError, record_event e False w))"

text \<open>
  \<open>getCodec\<close>: the probe's error rejects the promise. Otherwise \<open>forEach\<close> visits
  every stream; at a video stream it stores the codec name and calls \<open>resolve\<close>. The
  \<open>return\<close> inside the callback ends that callback only, so later streams are still
  visited, but only the first \<open>resolve\<close> settles a promise. Nothing is called after the
  loop.
\<close>

definition resolve :: "'a \<Rightarrow> 'a option \<Rightarrow> 'a option" where
  "resolve v settled = (case settled of None \<Rightarrow> Some v | Some u \<Rightarrow> Some u)"

fun getCodec_forEach ::
  "stream list \<Rightarrow> string option \<times> string option option \<Rightarrow> string option \<times> string option option" where
  "getCodec_forEach [] st = st"
| "getCodec_forEach (s # ss) (videoCodec, settled) =
     (if codec_type s = ''video''
      then getCodec_forEach ss (codec_name s, resolve (codec_name s) settled)
      else getCodec_forEach ss (videoCodec, settled))"

definition getCodec :: "probe_outcome \<Rightarrow> string \<Rightarrow> world \<Rightarrow> string option step \<times> world" where
  "getCodec probe filePath w =
     (case probe of
        ProbeErr \<Rightarrow> (Throw ProbeError, record_event (Ffprobe filePath) False w)
      | Metadata streams \<Rightarrow>
          (case snd (getCodec_forEach streams (None, None)) of
             None \<Rightarrow> (Hang, record_event (Ffprobe filePath) True w)
           | Some videoCodec \<Rightarrow> (Next videoCodec, record_event (Ffprobe filePath) True w)))"

text \<open>
  \<open>getDimentions\<close> (lines 169 to 183): the probe's error rejects the promise; the call of
  \<open>res\<close> that follows \<open>rej(err)\<close> in the callback cannot change that, since a promise
  is settled once (and what that call reads from the undefined metadata is raised inside
  the callback, not in the invocation). Without an error the first stream is read. With no
  stream at all the read of \<open>metadata.streams[0].width\<close> throws inside the probe's
  callback, after the executor of the promise has returned: neither \<open>res\<close> nor \<open>rej\<close>
  is called, the promise is never settled, and the invocation that awaits it never ends.
\<close>

definition getDimentions :: "probe_outcome \<Rightarrow> string \<Rightarrow> world \<Rightarrow> dimensions step \<times> world" where
  "getDimentions probe media w =
     (case probe of
        ProbeErr \<Rightarrow> (Throw ProbeError, record_event (Ffprobe media) False w)
      | Metadata streams \<Rightarrow>
          (case streams of
             [] \<Rightarrow> (Hang, record_event (Ffprobe media) True w)
           | s # _ \<Rightarrow>
               (Next \<lparr>dim_width = width s, dim_height = height s\<rparr>,
                record_event (Ffprobe media) True w)))"

definition convertFile ::
  "bool \<Rightarrow> artifact \<Rightarrow> string \<Rightarrow> string \<Rightarrow> string \<Rightarrow> world \<Rightarrow> string step \<times> world" where
  "convertFile ok kind input output size' w =
     (if ok
      then (Next output,
            (record_event (ConvertFile kind input output (Some size')) True w)
              \<lparr>files := insert output (files w)\<rparr>)
      else (Throw TransformError, record_event (ConvertFile kind input output (Some size')) False w))"

definition createPosterFromVideo ::
  "bool \<Rightarrow> string \<Rightarrow> string \<Rightarrow> world \<Rightarrow> string step \<times> world" where
  "createPosterFromVideo ok input output w =
     (if ok
      then (Next output,
            (record_event (CreatePosterFromVideo Poster input output 1 1) True w)
              \<lparr>files := insert output (files w)\<rparr>)
      else (Throw TransformError,
            record_event (CreatePosterFromVideo Poster input output 1 1) False w))"

definition createPoster :: "environment \<Rightarrow> string \<Rightarrow> string \<Rightarrow> world \<Rightarrow> unit step \<times> world" where
  "createPoster env filePath tempLocalFile =
     (let localPath = path_join (tmpdir env) (remotePath filePath)
      in andThen (createPosterFromVideo (poster_ok env) tempLocalFile localPath) (\<lambda>_.
         andThen (upload (poster_upload_ok env) Poster localPath
                    \<lparr>destination = remotePath filePath, uploadType = Some ''media'',
                     resumable = Some False, isPublic = False,
                     metadata = [(''gzip'', ''true''),
                                 (''cacheControl'', ''public, max-age=31536000'')]\<rparr>) (\<lambda>_.
         unlinkSync localPath)))"

section \<open>The size of the preview\<close>

text \<open>
  Lines 120 to 128. A dimension is an integer that the probe reports; each operation on it
  is rounded as the program's double-precision arithmetic rounds it.
\<close>

definition reducePercentage :: "int option \<Rightarrow> int \<Rightarrow> rat" where
  "reducePercentage dimension threshold =
     (if greaterThan_js dimension threshold
      then (case dimension of
              None \<Rightarrow> 0
            | Some d \<Rightarrow>
                double (100 - double (double (double (of_int d - of_int threshold) / of_int d) * 100)))
      else 0)"

definition reduce :: "dimensions \<Rightarrow> int" where
  "reduce dims =
     (let reduceHeightPercentage = reducePercentage (dim_height dims) 480;
          reduceWidthPercentage = reducePercentage (dim_width dims) 425
      in \<lfloor>if reduceHeightPercentage < reduceWidthPercentage
          then reduceHeightPercentage
          else reduceWidthPercentage\<rfloor>)"

section \<open>The function \<open>generateThumbnail\<close>\<close>

definition skip :: "world \<Rightarrow> unit step \<times> world" where
  "skip w = (Next (), w)"

definition mediaUploadOptions :: "string \<Rightarrow> upload_options" where
  "mediaUploadOptions dest =
     \<lparr>destination = dest, uploadType = Some ''media'', resumable = Some False,
      isPublic = True,
      metadata = [(''gzip'', ''true''), (''cacheControl'', ''public, max-age=31536000'')]\<rparr>"

text \<open>Lines 63 to 91: the branch of an image.\<close>

definition imageBranch ::
  "environment \<Rightarrow> string \<Rightarrow> string \<Rightarrow> string \<Rightarrow> world \<Rightarrow> unit step \<times> world" where
  "imageBranch env filePath contentType tempLocalFile =
     (let fileName = path_basename filePath
      in if startsWith (toLowerCase fileName) THUMB_PREFIX
            \<or> endsWith (toLowerCase fileName) ''_poster.jpg''
         then return AlreadyDerived
         else
           andThen (getDimentions (picDimensions_probe env) tempLocalFile) (\<lambda>picDimensions.
           if lessThan_js (dim_width picDimensions) THUMB_MAX_WIDTH
              \<and> lessThan_js (dim_height picDimensions) THUMB_MAX_HEIGHT
           then return BelowThumbBox
           else
             let tempLocalThumbFile = path_join (tmpdir env) (thumbFilePath filePath)
             in andThen (spawn_convert (spawn_ok env) tempLocalFile
                           (showInt THUMB_MAX_WIDTH @ ''x'' @ showInt THUMB_MAX_HEIGHT @ ''>'')
                           tempLocalThumbFile) (\<lambda>_.
                andThen (upload (thumb_upload_ok env) Thumbnail tempLocalThumbFile
                           \<lparr>destination = thumbFilePath filePath, uploadType = None,
                            resumable = None, isPublic = True,
                            metadata = [(''contentType'', contentType),
                                        (''Cache-Control'', ''public,max-age=3600'')]\<rparr>) (\<lambda>_.
                andThen (unlinkSync tempLocalThumbFile) (\<lambda>_.
                andThen (unlinkSync tempLocalFile) (\<lambda>_.
                return Completed))))))"

text \<open>Lines 100 to 114: the transcoded copy, unless the codec is already h264.\<close>

definition transcodeStep ::
  "environment \<Rightarrow> string \<Rightarrow> string \<Rightarrow> string option \<Rightarrow> world \<Rightarrow> unit step \<times> world" where
  "transcodeStep env filePath tempLocalFile codec =
     (if codec \<noteq> Some ''h264''
      then
        let targetTempFilePath = path_join (tmpdir env) (mp4FilePath filePath)
        in andThen (convertFile (convert_ok env) Transcode tempLocalFile targetTempFilePath
                      ''100%'') (\<lambda>_.
           andThen (upload (mp4_upload_ok env) Transcode targetTempFilePath
                      (mediaUploadOptions (mp4FilePath filePath))) (\<lambda>_.
           unlinkSync targetTempFilePath))
      else skip)"

text \<open>Lines 118 to 143: the scaled-down copy.\<close>

definition previewStep ::
  "environment \<Rightarrow> string \<Rightarrow> string \<Rightarrow> dimensions \<Rightarrow> world \<Rightarrow> unit step \<times> world" where
  "previewStep env filePath tempLocalFile dims =
     (if reduce dims > 0
      then
        let targetTempFilePathThumb = path_join (tmpdir env) (mp4FilePathThumb filePath)
        in andThen (convertFile (convertThumb_ok env) Preview tempLocalFile
                      targetTempFilePathThumb (showInt (reduce dims) @ ''%'')) (\<lambda>_.
           andThen (upload (mp4Thumb_upload_ok env) Preview targetTempFilePathThumb
                      (mediaUploadOptions (mp4FilePathThumb filePath))) (\<lambda>_.
           unlinkSync targetTempFilePathThumb))
      else skip)"

text \<open>Lines 92 to 146: the branch of a video.\<close>

definition videoBranch ::
  "environment \<Rightarrow> string \<Rightarrow> string \<Rightarrow> world \<Rightarrow> unit step \<times> world" where
  "videoBranch env filePath tempLocalFile =
     (let fileName = path_basename filePath
      in if endsWith (toLowerCase fileName) ''_output.mp4''
         then return AlreadyDerived
         else
           andThen (getCodec (codec_probe env) tempLocalFile) (\<lambda>codec.
           andThen (transcodeStep env filePath tempLocalFile codec) (\<lambda>_.
           andThen (createPoster env filePath tempLocalFile) (\<lambda>_.
           andThen (getDimentions (dimensions_probe env) tempLocalFile) (\<lambda>dims.
           andThen (previewStep env filePath tempLocalFile dims) (\<lambda>_.
           andThen (unlinkSync tempLocalFile) (\<lambda>_.
           return Completed)))))))"

definition generateThumbnail ::
  "environment \<Rightarrow> storage_object \<Rightarrow> world \<Rightarrow> unit step \<times> world" where
  "generateThumbnail env object =
     (let filePath = object_name object;
          contentType = object_contentType object
      in if \<not> isImage contentType \<and> \<not> isVideo contentType
         then return NotMedia
         else
           let tempLocalFile = path_join (tmpdir env) filePath;
               tempLocalDir = path_dirname tempLocalFile
           in andThen (mkdirp (mkdirp_ok env) tempLocalDir) (\<lambda>_.
              andThen (download (download_ok env) filePath tempLocalFile) (\<lambda>_.
              if isImage contentType
              then imageBranch env filePath contentType tempLocalFile
              else if isVideo contentType
              then videoBranch env filePath tempLocalFile
              else return Completed)))"

text \<open>An invocation starts with no call made; files of earlier invocations may exist.\<close>

definition start :: "string set \<Rightarrow> world" where
  "start fs = \<lparr>files = fs, trace = []\<rparr>"

section \<open>The earlier variant of the function\<close>

text \<open>
  The second source file holds an earlier variant of \<open>generateThumbnail\<close>: the content
  type and the file name are compared as they are (no \<open>toLowerCase\<close>), the thumbnail box
  is 200 by 200, every image that is not a thumbnail gets one, a video that is already
  h264 ends the invocation, and there is neither a poster nor a preview. Its
  \<open>convertFile\<close> sets no size; \<open>getCodec\<close> is the same function.
\<close>

definition THUMB_MAX_HEIGHT_earlier :: int where
  "THUMB_MAX_HEIGHT_earlier = 200"

definition THUMB_MAX_WIDTH_earlier :: int where
  "THUMB_MAX_WIDTH_earlier = 200"

definition convertFile_earlier ::
  "bool \<Rightarrow> artifact \<Rightarrow> string \<Rightarrow> string \<Rightarrow> world \<Rightarrow> string step \<times> world" where
  "convertFile_earlier ok kind input output w =
     (if ok
      then (Next output,
            (record_event (ConvertFile kind input output None) True w)
              \<lparr>files := insert output (files w)\<rparr>)
      else (Throw TransformError, record_event (ConvertFile kind input output None) False w))"

definition mp4FilePath_earlier :: "string \<Rightarrow> string" where
  "mp4FilePath_earlier filePath =
     path_normalize
       (path_join (path_dirname filePath)
          (replaceExtension (path_basename filePath) [] @ ''_output.mp4''))"

definition imageBranch_earlier ::
  "environment \<Rightarrow> string \<Rightarrow> string \<Rightarrow> string \<Rightarrow> world \<Rightarrow> unit step \<times> world" where
  "imageBranch_earlier env filePath contentType tempLocalFile =
     (let fileName = path_basename filePath
      in if startsWith fileName THUMB_PREFIX
         then return AlreadyDerived
         else
           let tempLocalThumbFile = path_join (tmpdir env) (thumbFilePath filePath)
           in andThen (spawn_convert (spawn_ok env) tempLocalFile
                         (showInt THUMB_MAX_WIDTH_earlier @ ''x''
                            @ showInt THUMB_MAX_HEIGHT_earlier @ ''>'')
                         tempLocalThumbFile) (\<lambda>_.
              andThen (upload (thumb_upload_ok env) Thumbnail tempLocalThumbFile
                         \<lparr>destination = thumbFilePath filePath, uploadType = None,
                          resumable = None, isPublic = True,
                          metadata = [(''contentType'', contentType),
                                      (''Cache-Control'', ''public,max-age=3600'')]\<rparr>) (\<lambda>_.
              andThen (unlinkSync tempLocalThumbFile) (\<lambda>_.
              andThen (unlinkSync tempLocalFile) (\<lambda>_.
              return Completed)))))"

definition videoBranch_earlier ::
  "environment \<Rightarrow> string \<Rightarrow> string \<Rightarrow> world \<Rightarrow> unit step \<times> world" where
  "videoBranch_earlier env filePath tempLocalFile =
     (let fileName = path_basename filePath
      in andThen (getCodec (codec_probe env) tempLocalFile) (\<lambda>codec.
         if codec = Some ''h264''
         then return CodecIsH264
         else if endsWith fileName ''_output.mp4''
         then return AlreadyDerived
         else
           let targetTempFilePath = path_join (tmpdir env) (mp4FilePath_earlier filePath)
           in andThen (convertFile_earlier (convert_ok env) Transcode tempLocalFile
                         targetTempFilePath) (\<lambda>_.
              andThen (upload (mp4_upload_ok env) Transcode targetTempFilePath
                         (mediaUploadOptions (mp4FilePath_earlier filePath))) (\<lambda>_.
              andThen (unlinkSync targetTempFilePath) (\<lambda>_.
              andThen (unlinkSync tempLocalFile) (\<lambda>_.
              return Completed))))))"

definition generateThumbnail_earlier ::
  "environment \<Rightarrow> storage_object \<Rightarrow> world \<Rightarrow> unit step \<times> world" where
  "generateThumbnail_earlier env object =
     (let filePath = object_name object;
          contentType = object_contentType object
      in if \<not> startsWith contentType ''image/'' \<and> \<not> startsWith contentType ''video/''
         then return NotMedia
         else
           let tempLocalFile = path_join (tmpdir env) filePath;
               tempLocalDir = path_dirname tempLocalFile
           in andThen (mkdirp (mkdirp_ok env) tempLocalDir) (\<lambda>_.
              andThen (download (download_ok env) filePath tempLocalFile) (\<lambda>_.
              if startsWith contentType ''image/''
              then imageBranch_earlier env filePath contentType tempLocalFile
              else if startsWith contentType ''video/''
              then videoBranch_earlier env filePath tempLocalFile
              else return Completed)))"

section \<open>Observing a run\<close>

fun isDownload :: "event \<Rightarrow> bool" where
  "isDownload (Download _ _) = True"
| "isDownload _ = False"

fun isUpload :: "event \<Rightarrow> bool" where
  "isUpload (Upload _ _ _) = True"
| "isUpload _ = False"

fun isTransform :: "event \<Rightarrow> bool" where
  "isTransform (Spawn _ _ _) = True"
| "isTransform (ConvertFile _ _ _ _) = True"
| "isTransform (CreatePosterFromVideo _ _ _ _ _) = True"
| "isTransform _ = False"

fun artifactOf :: "event \<Rightarrow> artifact option" where
  "artifactOf (Spawn k _ _) = Some k"
| "artifactOf (ConvertFile k _ _ _) = Some k"
| "artifactOf (CreatePosterFromVideo k _ _ _ _) = Some k"
| "artifactOf (Upload k _ _) = Some k"
| "artifactOf _ = None"

text \<open>The calls of a kind made in a run, in order.\<close>

definition calls :: "(event \<Rightarrow> bool) \<Rightarrow> world \<Rightarrow> event list" where
  "calls P w = filter P (map fst (trace w))"

text \<open>The artifact kinds a run worked on.\<close>

definition artifacts :: "world \<Rightarrow> artifact set" where
  "artifacts w = set (List.map_filter artifactOf (map fst (trace w)))"

definition allSucceeded :: "(event \<times> bool) list \<Rightarrow> bool" where
  "allSucceeded t = list_all snd t"

section \<open>Example inputs\<close>

definition hevcStream :: stream where
  "hevcStream =
     \<lparr>codec_type = ''video'', codec_name = Some ''hevc'', width = Some 850, height = Some 960\<rparr>"

definition h264Stream :: stream where
  "h264Stream =
     \<lparr>codec_type = ''video'', codec_name = Some ''h264'', width = Some 425, height = Some 960\<rparr>"

definition audioStream :: stream where
  "audioStream =
     \<lparr>codec_type = ''audio'', codec_name = Some ''aac'', width = None, height = None\<rparr>"

definition smallPicture :: stream where
  "smallPicture =
     \<lparr>codec_type = ''video'', codec_name = Some ''png'', width = Some 120, height = Some 80\<rparr>"

text \<open>Every call succeeds, and every probe of the file reports the given streams.\<close>

definition allSucceed :: "stream list \<Rightarrow> environment" where
  "allSucceed streams =
     \<lparr>tmpdir = ''/tmp'', mkdirp_ok = True, download_ok = True,
      picDimensions_probe = Metadata streams, spawn_ok = True, thumb_upload_ok = True,
      codec_probe = Metadata streams, convert_ok = True, mp4_upload_ok = True,
      poster_ok = True, poster_upload_ok = True, dimensions_probe = Metadata streams,
      convertThumb_ok = True, mp4Thumb_upload_ok = True\<rparr>"

definition storageObject :: "string \<Rightarrow> string \<Rightarrow> storage_object" where
  "storageObject key contentType =
     \<lparr>object_name = key, object_bucket = ''media'', object_contentType = contentType\<rparr>"

text \<open>As \<open>allSucceed\<close>, but the probe for the codec fails.\<close>

definition codecProbeFails :: environment where
  "codecProbeFails = (allSucceed [hevcStream])\<lparr>codec_probe := ProbeErr\<rparr>"

section \<open>Predicates on runs\<close>

text \<open>
  A result and the trace that comes with it: after an exception every call but the last
  has succeeded; in every other case every call has succeeded.
\<close>

fun endsOrderly :: "'a step \<Rightarrow> (event \<times> bool) list \<Rightarrow> bool" where
  "endsOrderly (Throw e) t = (t \<noteq> [] \<and> allSucceeded (butlast t))"
| "endsOrderly (Next a) t = allSucceeded t"
| "endsOrderly (Exit x) t = allSucceeded t"
| "endsOrderly Hang t = allSucceeded t"

text \<open>A step that keeps this up when it starts after calls that all succeeded.\<close>

definition orderly :: "(world \<Rightarrow> 'a step \<times> world) \<Rightarrow> bool" where
  "orderly m = (\<forall>w. allSucceeded (trace w) \<longrightarrow> endsOrderly (fst (m w)) (trace (snd (m w))))"

text \<open>A step that keeps a property of the trace.\<close>

definition preserves :: "((event \<times> bool) list \<Rightarrow> bool) \<Rightarrow> (world \<Rightarrow> 'a step \<times> world) \<Rightarrow> bool" where
  "preserves P m = (\<forall>w. P (trace w) \<longrightarrow> P (trace (snd (m w))))"

text \<open>No call in the trace works on an artifact of the given kinds.\<close>

definition noneOfKinds :: "artifact set \<Rightarrow> (event \<times> bool) list \<Rightarrow> bool" where
  "noneOfKinds K t = list_all (\<lambda>x. \<forall>k. artifactOf (fst x) = Some k \<longrightarrow> k \<notin> K) t"

text \<open>No failed call in the trace works on an artifact of the given kind.\<close>

definition noFailureOfKind :: "artifact \<Rightarrow> (event \<times> bool) list \<Rightarrow> bool" where
  "noFailureOfKind k t = list_all (\<lambda>x. snd x \<or> artifactOf (fst x) \<noteq> Some k) t"

text \<open>
  A step after which a failed transcoding call implies that neither the poster nor the
  preview was started, provided no call for them was made before and every earlier call
  succeeded.
\<close>

definition transcodeFirst :: "(world \<Rightarrow> 'a step \<times> world) \<Rightarrow> bool" where
  "transcodeFirst m =
     (\<forall>w. noneOfKinds {Poster, Preview} (trace w) \<longrightarrow> allSucceeded (trace w) \<longrightarrow>
          noFailureOfKind Transcode (trace (snd (m w)))
          \<or> noneOfKinds {Poster, Preview} (trace (snd (m w))))"

text \<open>As \<open>allSucceed\<close>, but the transcoding fails.\<close>

definition transcodeFails :: environment where
  "transcodeFails = (allSucceed [hevcStream])\<lparr>convert_ok := False\<rparr>"

text \<open>
  The percentage as the program rounds it, when the exact percentage is the integer \<open>k\<close>.
\<close>

definition roundedPercentage :: "int \<Rightarrow> rat" where
  "roundedPercentage k = double (100 - double (double ((100 - of_int k) / 100) * 100))"

section \<open>Properties of the steps\<close>

lemmas step_defs =
  andThen_def return_def skip_def mkdirp_def download_def upload_def unlinkSync_def
  spawn_convert_def getCodec_def getDimentions_def convertFile_def createPosterFromVideo_def
  record_event_def

lemmas example_defs =
  allSucceed_def storageObject_def hevcStream_def h264Stream_def audioStream_def
  smallPicture_def

lemma storageObject_fields [simp]:
  "object_name (storageObject key ct) = key"
  "object_contentType (storageObject key ct) = ct"
  by (simp_all add: storageObject_def)

lemma toLowerCase_literals:
  "toLowerCase ''image/'' = ''image/''"
  "toLowerCase ''video/'' = ''video/''"
  by (simp_all add: toLowerCase_def lowerChar_def)

lemma startsWith_toLowerCase:
  "startsWith s p \<Longrightarrow> startsWith (toLowerCase s) (toLowerCase p)"
  by (auto simp: startsWith_def toLowerCase_def prefix_def)

lemma isImage_if_startsWith: "startsWith ct ''image/'' \<Longrightarrow> isImage ct"
  using startsWith_toLowerCase [of ct "''image/''"]
  by (simp add: isImage_def toLowerCase_literals)

lemma isVideo_if_startsWith: "startsWith ct ''video/'' \<Longrightarrow> isVideo ct"
  using startsWith_toLowerCase [of ct "''video/''"]
  by (simp add: isVideo_def toLowerCase_literals)

lemma isVideo_not_isImage: "isVideo ct \<Longrightarrow> \<not> isImage ct"
  by (auto simp: isVideo_def isImage_def startsWith_def prefix_def)

section \<open>Objects that are neither images nor videos\<close>

text \<open>
  Claim C4. When the lowercased content type starts with neither \<open>image/\<close> nor
  \<open>video/\<close>, the invocation returns at once and leaves the world as it found it: it
  makes no call at all, so it downloads nothing and uploads nothing. The earlier variant,
  which compares the content type as it is, does the same on these objects.
\<close>

theorem not_media_is_no_op:
  assumes "\<not> startsWith (toLowerCase (object_contentType object)) ''image/''"
      and "\<not> startsWith (toLowerCase (object_contentType object)) ''video/''"
  shows "generateThumbnail env object w = (Exit NotMedia, w)
       \<and> generateThumbnail_earlier env object w = (Exit NotMedia, w)
       \<and> calls isDownload (snd (generateThumbnail env object (start fs))) = []
       \<and> calls isUpload (snd (generateThumbnail env object (start fs))) = []
       \<and> calls isDownload (snd (generateThumbnail_earlier env object (start fs))) = []
       \<and> calls isUpload (snd (generateThumbnail_earlier env object (start fs))) = []"
proof -
  have new: "generateThumbnail env object v = (Exit NotMedia, v)" for v
    using assms by (simp add: generateThumbnail_def isImage_def isVideo_def return_def)
  have "\<not> startsWith (object_contentType object) ''image/''"
       "\<not> startsWith (object_contentType object) ''video/''"
    using assms isImage_if_startsWith isVideo_if_startsWith
    by (auto simp: isImage_def isVideo_def)
  then have old: "generateThumbnail_earlier env object v = (Exit NotMedia, v)" for v
    by (simp add: generateThumbnail_earlier_def return_def)
  show ?thesis
    by (simp add: new old calls_def start_def)
qed

theorem not_media_is_no_op_witness:
  "\<not> startsWith (toLowerCase ''Text/Plain'') ''image/''
   \<and> \<not> startsWith (toLowerCase ''Text/Plain'') ''video/''
   \<and> generateThumbnail (allSucceed []) (storageObject ''notes/todo.txt'' ''Text/Plain'') (start {})
       = (Exit NotMedia, start {})
   \<and> generateThumbnail_earlier (allSucceed []) (storageObject ''notes/todo.txt'' ''Text/Plain'')
         (start {})
       = (Exit NotMedia, start {})
   \<and> calls isDownload
        (snd (generateThumbnail (allSucceed []) (storageObject ''notes/todo.txt'' ''Text/Plain'')
                (start {}))) = []
   \<and> calls isUpload
        (snd (generateThumbnail (allSucceed []) (storageObject ''notes/todo.txt'' ''Text/Plain'')
                (start {}))) = []"
proof -
  have a: "\<not> startsWith (toLowerCase ''Text/Plain'') ''image/''"
    and b: "\<not> startsWith (toLowerCase ''Text/Plain'') ''video/''"
    by (simp_all add: startsWith_def toLowerCase_def lowerChar_def)
  have "\<not> startsWith (toLowerCase (object_contentType
            (storageObject ''notes/todo.txt'' ''Text/Plain''))) ''image/''"
    and "\<not> startsWith (toLowerCase (object_contentType
            (storageObject ''notes/todo.txt'' ''Text/Plain''))) ''video/''"
    using a b by simp_all
  from not_media_is_no_op [OF this, of "allSucceed []" "start {}" "{}"] a b
  show ?thesis by blast
qed

section \<open>Objects that are already derived\<close>

lemmas run_defs =
  generateThumbnail_def imageBranch_def videoBranch_def transcodeStep_def previewStep_def
  createPoster_def

text \<open>
  Claim C5. When the key of the inbound object passes the already-derived guard (an image
  whose lowercased base name starts with \<open>thumb_\<close> or ends with \<open>_poster.jpg\<close>, a
  video whose lowercased base name ends with \<open>_output.mp4\<close>), the invocation downloads
  at most once, uploads nothing and runs no transform.
\<close>

theorem already_derived_is_skipped:
  assumes "isAlreadyDerived (object_name object) (object_contentType object)"
  shows "length (calls isDownload (snd (generateThumbnail env object (start fs)))) \<le> 1
       \<and> calls isUpload (snd (generateThumbnail env object (start fs))) = []
       \<and> calls isTransform (snd (generateThumbnail env object (start fs))) = []"
  using assms
  by (auto simp: run_defs isAlreadyDerived_def step_defs calls_def start_def Let_def
      split: if_splits)

theorem already_derived_is_skipped_witness:
  "isAlreadyDerived ''photos/Thumb_cat.png'' ''image/png''
   \<and> length (calls isDownload
        (snd (generateThumbnail (allSucceed [hevcStream])
                (storageObject ''photos/Thumb_cat.png'' ''image/png'') (start {})))) \<le> 1
   \<and> calls isUpload
        (snd (generateThumbnail (allSucceed [hevcStream])
                (storageObject ''photos/Thumb_cat.png'' ''image/png'') (start {}))) = []
   \<and> calls isTransform
        (snd (generateThumbnail (allSucceed [hevcStream])
                (storageObject ''photos/Thumb_cat.png'' ''image/png'') (start {}))) = []"
proof -
  have a: "isAlreadyDerived ''photos/Thumb_cat.png'' ''image/png''"
    by code_simp
  then have "isAlreadyDerived (object_name (storageObject ''photos/Thumb_cat.png'' ''image/png''))
               (object_contentType (storageObject ''photos/Thumb_cat.png'' ''image/png''))"
    by simp
  from already_derived_is_skipped [OF this, of "allSucceed [hevcStream]" "{}"] a
  show ?thesis by blast
qed

section \<open>Images smaller than the thumbnail box\<close>

text \<open>
  Claim C7. When the content type is an image and the probe reports a width and a height
  that are both strictly smaller than the thumbnail box, no thumbnail is made: the
  invocation runs no transform and uploads nothing.
\<close>

theorem small_image_gets_no_thumbnail:
  assumes "isImage (object_contentType object)"
      and "picDimensions_probe env = Metadata (s # ss)"
      and "width s = Some wd" and "height s = Some ht"
      and "wd < THUMB_MAX_WIDTH" and "ht < THUMB_MAX_HEIGHT"
  shows "calls isTransform (snd (generateThumbnail env object (start fs))) = []
       \<and> calls isUpload (snd (generateThumbnail env object (start fs))) = []
       \<and> Thumbnail \<notin> artifacts (snd (generateThumbnail env object (start fs)))"
  using assms
  by (auto simp: run_defs lessThan_js_def List.map_filter_simps step_defs calls_def
      artifacts_def start_def Let_def split: if_splits)

theorem small_image_gets_no_thumbnail_witness:
  "isImage ''image/png''
   \<and> (120 :: int) < THUMB_MAX_WIDTH \<and> (80 :: int) < THUMB_MAX_HEIGHT
   \<and> calls isTransform
        (snd (generateThumbnail (allSucceed [smallPicture])
                (storageObject ''photos/icon.png'' ''image/png'') (start {}))) = []
   \<and> calls isUpload
        (snd (generateThumbnail (allSucceed [smallPicture])
                (storageObject ''photos/icon.png'' ''image/png'') (start {}))) = []
   \<and> Thumbnail \<notin> artifacts
        (snd (generateThumbnail (allSucceed [smallPicture])
                (storageObject ''photos/icon.png'' ''image/png'') (start {})))"
proof -
  have a: "isImage ''image/png''"
    by code_simp
  then have a': "isImage (object_contentType (storageObject ''photos/icon.png'' ''image/png''))"
    by simp
  have b: "picDimensions_probe (allSucceed [smallPicture]) = Metadata (smallPicture # [])"
    by (simp add: allSucceed_def)
  have c: "width smallPicture = Some 120" and d: "height smallPicture = Some 80"
    by (simp_all add: smallPicture_def)
  have e: "(120 :: int) < THUMB_MAX_WIDTH" and f: "(80 :: int) < THUMB_MAX_HEIGHT"
    by (simp_all add: THUMB_MAX_WIDTH_def THUMB_MAX_HEIGHT_def)
  from small_image_gets_no_thumbnail [OF a' b c d e f, of "{}"] a e f
  show ?thesis by blast
qed

section \<open>The scratch copy of the input\<close>

text \<open>
  Claim C2, as stated, asks that the scratch copy of the downloaded input is gone when the
  invocation ends, whether the later steps succeed or fail. The function has no handler
  around its steps: when the probe for the codec fails, the invocation fails at that call
  and the scratch copy is still there.
\<close>

theorem scratch_copy_left_after_failure:
  "fst (generateThumbnail codecProbeFails (storageObject ''clips/a.mov'' ''video/quicktime'')
          (start {})) = Throw ProbeError
   \<and> (Download ''clips/a.mov'' ''/tmp/clips/a.mov'', True)
       \<in> set (trace (snd (generateThumbnail codecProbeFails
                             (storageObject ''clips/a.mov'' ''video/quicktime'') (start {}))))
   \<and> ''/tmp/clips/a.mov''
       \<in> files (snd (generateThumbnail codecProbeFails
                        (storageObject ''clips/a.mov'' ''video/quicktime'') (start {})))"
  by code_simp

text \<open>
  Claim C2, amended. An invocation that runs to the end of the image branch or of the video
  branch (no step fails and no \<open>return\<close> is taken on the way) has downloaded the input to
  its scratch path, and that path no longer exists when the invocation ends.
\<close>

theorem completed_run_removes_scratch_copy:
  assumes "generateThumbnail env object (start fs) = (Exit Completed, w)"
  shows "(Download (object_name object) (path_join (tmpdir env) (object_name object)), True)
           \<in> set (trace w)
       \<and> path_join (tmpdir env) (object_name object) \<notin> files w"
  using assms
  by (auto simp: run_defs step_defs start_def Let_def
      split: if_splits probe_outcome.splits option.splits list.splits)

theorem completed_run_removes_scratch_copy_witness:
  "generateThumbnail (allSucceed [hevcStream]) (storageObject ''clips/a.mov'' ''video/quicktime'')
      (start {})
     = (Exit Completed,
        snd (generateThumbnail (allSucceed [hevcStream])
               (storageObject ''clips/a.mov'' ''video/quicktime'') (start {})))
   \<and> (Download ''clips/a.mov'' (path_join ''/tmp'' ''clips/a.mov''), True)
       \<in> set (trace (snd (generateThumbnail (allSucceed [hevcStream])
                             (storageObject ''clips/a.mov'' ''video/quicktime'') (start {}))))
   \<and> path_join ''/tmp'' ''clips/a.mov''
       \<notin> files (snd (generateThumbnail (allSucceed [hevcStream])
                        (storageObject ''clips/a.mov'' ''video/quicktime'') (start {})))"
proof -
  have "fst (generateThumbnail (allSucceed [hevcStream])
               (storageObject ''clips/a.mov'' ''video/quicktime'') (start {})) = Exit Completed"
    by code_simp
  then have a: "generateThumbnail (allSucceed [hevcStream])
                  (storageObject ''clips/a.mov'' ''video/quicktime'') (start {})
     = (Exit Completed,
        snd (generateThumbnail (allSucceed [hevcStream])
               (storageObject ''clips/a.mov'' ''video/quicktime'') (start {})))"
    by (metis prod.collapse)
  have t: "tmpdir (allSucceed [hevcStream]) = ''/tmp''"
    by (simp add: allSucceed_def)
  from completed_run_removes_scratch_copy [OF a] a t
  show ?thesis by simp
qed

section \<open>Failures end the invocation\<close>

lemma orderly_andThen:
  assumes "orderly m" and "\<And>a. orderly (f a)"
  shows "orderly (andThen m f)"
  unfolding orderly_def
proof (intro allI impI)
  fix w :: world assume w: "allSucceeded (trace w)"
  obtain r w1 where m: "m w = (r, w1)" by (cases "m w")
  from assms(1) w m have s: "endsOrderly r (trace w1)" by (auto simp: orderly_def)
  show "endsOrderly (fst (andThen m f w)) (trace (snd (andThen m f w)))"
  proof (cases r)
    case (Next a)
    with s have "allSucceeded (trace w1)" by simp
    with assms(2) [of a] have "endsOrderly (fst (f a w1)) (trace (snd (f a w1)))"
      by (auto simp: orderly_def)
    with m Next show ?thesis by (simp add: andThen_def)
  qed (use m s in \<open>simp_all add: andThen_def\<close>)
qed

lemma orderly_if: "orderly a \<Longrightarrow> orderly b \<Longrightarrow> orderly (if c then a else b)"
  by simp

lemma orderly_steps:
  "orderly (return x)" "orderly skip" "orderly (mkdirp ok d)" "orderly (download ok k p)"
  "orderly (upload ok kind p opts)" "orderly (unlinkSync p)"
  "orderly (spawn_convert ok i g out)" "orderly (getCodec probe p)"
  "orderly (getDimentions probe p)" "orderly (convertFile ok kind i out sz)"
  "orderly (convertFile_earlier ok kind i out)"
  "orderly (createPosterFromVideo ok i out)"
  by (auto simp: orderly_def return_def skip_def mkdirp_def download_def upload_def unlinkSync_def
      spawn_convert_def getCodec_def getDimentions_def convertFile_def convertFile_earlier_def
      createPosterFromVideo_def record_event_def allSucceeded_def Let_def
      split: probe_outcome.splits option.splits list.splits)

lemma orderly_createPoster: "orderly (createPoster env k p)"
  by (simp add: createPoster_def Let_def orderly_andThen orderly_steps)

lemma orderly_transcodeStep: "orderly (transcodeStep env k p c)"
  by (simp add: transcodeStep_def Let_def orderly_andThen orderly_steps)

lemma orderly_previewStep: "orderly (previewStep env k p d)"
  by (simp add: previewStep_def Let_def orderly_andThen orderly_steps)

lemma orderly_imageBranch: "orderly (imageBranch env k ct p)"
  by (simp add: imageBranch_def Let_def orderly_andThen orderly_steps)

lemma orderly_videoBranch: "orderly (videoBranch env k p)"
  by (simp add: videoBranch_def Let_def orderly_andThen orderly_steps orderly_createPoster
      orderly_transcodeStep orderly_previewStep)

lemma orderly_generateThumbnail: "orderly (generateThumbnail env object)"
  by (simp add: generateThumbnail_def Let_def orderly_andThen orderly_steps orderly_imageBranch
      orderly_videoBranch)

lemma settled_failure:
  assumes "endsOrderly r t" and "(e, False) \<in> set t"
  shows "(\<exists>err. r = Throw err) \<and> (\<exists>pre. t = pre @ [(e, False)] \<and> allSucceeded pre)"
proof -
  from assms(2) have n: "\<not> allSucceeded t"
    by (force simp: allSucceeded_def list_all_iff)
  with assms(1) obtain err where r: "r = Throw err"
    by (cases r) auto
  with assms(1) have t: "t \<noteq> []" and b: "allSucceeded (butlast t)" by auto
  from t have eq: "t = butlast t @ [last t]" by simp
  with assms(2) b have "last t = (e, False)"
  proof -
    from assms(2) eq have "(e, False) \<in> set (butlast t) \<or> (e, False) = last t"
      by (metis Un_iff empty_iff empty_set set_ConsD set_append)
    moreover from b have "(e, False) \<notin> set (butlast t)"
      by (force simp: allSucceeded_def list_all_iff)
    ultimately show ?thesis by simp
  qed
  with eq b r show ?thesis by metis
qed

lemma failure_shape:
  assumes "(e, False) \<in> set (trace (snd (generateThumbnail env object (start fs))))"
  shows "(\<exists>err. fst (generateThumbnail env object (start fs)) = Throw err)
       \<and> (\<exists>pre. trace (snd (generateThumbnail env object (start fs))) = pre @ [(e, False)]
                \<and> allSucceeded pre)"
proof -
  have "allSucceeded (trace (start fs))" by (simp add: start_def allSucceeded_def)
  with orderly_generateThumbnail [of env object]
  have "endsOrderly (fst (generateThumbnail env object (start fs)))
          (trace (snd (generateThumbnail env object (start fs))))"
    by (simp add: orderly_def)
  from settled_failure [OF this assms] show ?thesis .
qed

lemma preserves_andThen:
  assumes "preserves P m" and "\<And>a. preserves P (f a)"
  shows "preserves P (andThen m f)"
  unfolding preserves_def
proof (intro allI impI)
  fix w :: world assume w: "P (trace w)"
  obtain r w1 where m: "m w = (r, w1)" by (cases "m w")
  from assms(1) w m have s: "P (trace w1)" by (auto simp: preserves_def)
  show "P (trace (snd (andThen m f w)))"
  proof (cases r)
    case (Next a)
    with assms(2) [of a] s have "P (trace (snd (f a w1)))"
      by (auto simp: preserves_def)
    with m Next show ?thesis by (simp add: andThen_def)
  qed (use m s in \<open>simp_all add: andThen_def\<close>)
qed

lemma preserves_silent:
  "preserves P (return x)" "preserves P skip"
  by (simp_all add: preserves_def return_def skip_def)

lemma preserves_noneOfKinds:
  "preserves (noneOfKinds K) (mkdirp ok d)"
  "preserves (noneOfKinds K) (download ok key p)"
  "preserves (noneOfKinds K) (unlinkSync p)"
  "preserves (noneOfKinds K) (getCodec probe p)"
  "preserves (noneOfKinds K) (getDimentions probe p)"
  "kind \<notin> K \<Longrightarrow> preserves (noneOfKinds K) (upload ok kind p opts)"
  "kind \<notin> K \<Longrightarrow> preserves (noneOfKinds K) (convertFile ok kind i out sz)"
  "Thumbnail \<notin> K \<Longrightarrow> preserves (noneOfKinds K) (spawn_convert ok i g out)"
  "Poster \<notin> K \<Longrightarrow> preserves (noneOfKinds K) (createPosterFromVideo ok i out)"
  by (auto simp: preserves_def noneOfKinds_def mkdirp_def download_def upload_def unlinkSync_def
      spawn_convert_def getCodec_def getDimentions_def convertFile_def
      createPosterFromVideo_def record_event_def Let_def
      split: probe_outcome.splits option.splits list.splits)

lemma preserves_noFailureOfKind:
  "preserves (noFailureOfKind k) (mkdirp ok d)"
  "preserves (noFailureOfKind k) (download ok key p)"
  "preserves (noFailureOfKind k) (unlinkSync p)"
  "preserves (noFailureOfKind k) (getCodec probe p)"
  "preserves (noFailureOfKind k) (getDimentions probe p)"
  "kind \<noteq> k \<Longrightarrow> preserves (noFailureOfKind k) (upload ok kind p opts)"
  "kind \<noteq> k \<Longrightarrow> preserves (noFailureOfKind k) (convertFile ok kind i out sz)"
  "Thumbnail \<noteq> k \<Longrightarrow> preserves (noFailureOfKind k) (spawn_convert ok i g out)"
  "Poster \<noteq> k \<Longrightarrow> preserves (noFailureOfKind k) (createPosterFromVideo ok i out)"
  by (auto simp: preserves_def noFailureOfKind_def mkdirp_def download_def upload_def
      unlinkSync_def spawn_convert_def getCodec_def getDimentions_def convertFile_def
      createPosterFromVideo_def record_event_def Let_def
      split: probe_outcome.splits option.splits list.splits)

text \<open>What remains of the video branch after the transcoding step.\<close>

lemma afterTranscode_noFailureOfKind:
  "preserves (noFailureOfKind Transcode)
     (andThen (createPoster env k p) (\<lambda>_.
      andThen (getDimentions (dimensions_probe env) p) (\<lambda>dims.
      andThen (previewStep env k p dims) (\<lambda>_.
      andThen (unlinkSync p) (\<lambda>_. return Completed)))))"
  by (simp add: createPoster_def previewStep_def Let_def preserves_andThen preserves_silent
      preserves_noFailureOfKind)

lemma transcodeStep_noneOfKinds:
  "preserves (noneOfKinds {Poster, Preview}) (transcodeStep env k p c)"
  by (simp add: transcodeStep_def Let_def preserves_andThen preserves_silent
      preserves_noneOfKinds)

lemma imageBranch_noFailureOfKind:
  "preserves (noFailureOfKind Transcode) (imageBranch env k ct p)"
  by (simp add: imageBranch_def Let_def preserves_andThen preserves_silent
      preserves_noFailureOfKind)

lemma allSucceeded_noFailureOfKind: "allSucceeded t \<Longrightarrow> noFailureOfKind k t"
  by (auto simp: allSucceeded_def noFailureOfKind_def list_all_iff)

lemma transcodeFirst_andThen:
  assumes "preserves (noneOfKinds {Poster, Preview}) m" and "orderly m"
      and "\<And>a. transcodeFirst (f a)"
  shows "transcodeFirst (andThen m f)"
  unfolding transcodeFirst_def
proof (intro allI impI)
  fix w :: world
  assume a: "noneOfKinds {Poster, Preview} (trace w)" and b: "allSucceeded (trace w)"
  obtain r w1 where m: "m w = (r, w1)" by (cases "m w")
  from assms(1) a m have n: "noneOfKinds {Poster, Preview} (trace w1)"
    by (auto simp: preserves_def)
  from assms(2) b m have s: "endsOrderly r (trace w1)" by (auto simp: orderly_def)
  show "noFailureOfKind Transcode (trace (snd (andThen m f w)))
        \<or> noneOfKinds {Poster, Preview} (trace (snd (andThen m f w)))"
  proof (cases r)
    case (Next x)
    with s have "allSucceeded (trace w1)" by simp
    with assms(3) [of x] n
    have "noFailureOfKind Transcode (trace (snd (f x w1)))
          \<or> noneOfKinds {Poster, Preview} (trace (snd (f x w1)))"
      by (auto simp: transcodeFirst_def)
    with m Next show ?thesis by (simp add: andThen_def)
  qed (use m n in \<open>simp_all add: andThen_def\<close>)
qed

lemma transcodeFirst_preserves:
  assumes "preserves (noFailureOfKind Transcode) m"
  shows "transcodeFirst m"
  using assms allSucceeded_noFailureOfKind
  by (auto simp: transcodeFirst_def preserves_def)

lemma transcodeFirst_transcodeStep:
  assumes "\<And>a. preserves (noFailureOfKind Transcode) (f a)"
  shows "transcodeFirst (andThen (transcodeStep env k p c) f)"
  by (rule transcodeFirst_andThen [OF transcodeStep_noneOfKinds orderly_transcodeStep])
     (rule transcodeFirst_preserves [OF assms])

lemma transcodeFirst_if:
  "transcodeFirst a \<Longrightarrow> transcodeFirst b \<Longrightarrow> transcodeFirst (if c then a else b)"
  by simp

lemma transcodeFirst_return: "transcodeFirst (return x)"
  by (rule transcodeFirst_preserves) (rule preserves_silent)

lemma transcodeFirst_videoBranch: "transcodeFirst (videoBranch env k p)"
  unfolding videoBranch_def Let_def
proof (intro transcodeFirst_if transcodeFirst_return)
  show "transcodeFirst
          (andThen (getCodec (codec_probe env) p) (\<lambda>codec.
           andThen (transcodeStep env k p codec) (\<lambda>_.
           andThen (createPoster env k p) (\<lambda>_.
           andThen (getDimentions (dimensions_probe env) p) (\<lambda>dims.
           andThen (previewStep env k p dims) (\<lambda>_.
           andThen (unlinkSync p) (\<lambda>_. return Completed)))))))"
    by (intro transcodeFirst_andThen preserves_noneOfKinds orderly_steps
        transcodeFirst_transcodeStep afterTranscode_noFailureOfKind)
qed

lemma transcodeFirst_generateThumbnail: "transcodeFirst (generateThumbnail env object)"
  unfolding generateThumbnail_def Let_def
  by (intro transcodeFirst_if transcodeFirst_return transcodeFirst_andThen
      preserves_noneOfKinds orderly_steps transcodeFirst_videoBranch
      transcodeFirst_preserves [OF imageBranch_noFailureOfKind])

lemma artifacts_noneOfKinds:
  "noneOfKinds K (trace w) \<Longrightarrow> k \<in> K \<Longrightarrow> k \<notin> artifacts w"
  by (auto simp: noneOfKinds_def artifacts_def list_all_iff List.map_filter_def)

lemma failed_transcode:
  assumes "(e, False) \<in> set (trace (snd (generateThumbnail env object (start fs))))"
      and "artifactOf e = Some Transcode"
  shows "Poster \<notin> artifacts (snd (generateThumbnail env object (start fs)))
       \<and> Preview \<notin> artifacts (snd (generateThumbnail env object (start fs)))"
proof -
  have "noneOfKinds {Poster, Preview} (trace (start fs))" "allSucceeded (trace (start fs))"
    by (simp_all add: start_def noneOfKinds_def allSucceeded_def)
  with transcodeFirst_generateThumbnail [of env object]
  have "noFailureOfKind Transcode (trace (snd (generateThumbnail env object (start fs))))
        \<or> noneOfKinds {Poster, Preview} (trace (snd (generateThumbnail env object (start fs))))"
    by (simp add: transcodeFirst_def)
  moreover from assms
  have "\<not> noFailureOfKind Transcode (trace (snd (generateThumbnail env object (start fs))))"
    by (force simp: noFailureOfKind_def list_all_iff)
  ultimately show ?thesis
    by (simp add: artifacts_noneOfKinds)
qed

text \<open>
  Claim C9. When a call of an invocation fails (a download, a probe, a transform, an
  upload, or the creation or removal of a local file), that call is the last one the
  invocation makes, every call before it has succeeded, and the invocation ends with the
  failure. In particular, when a call of the transcoding step fails, neither the poster
  nor the preview is started.
\<close>

theorem failure_aborts_the_invocation:
  assumes "(e, False) \<in> set (trace (snd (generateThumbnail env object (start fs))))"
  shows "(\<exists>err. fst (generateThumbnail env object (start fs)) = Throw err)
       \<and> (\<exists>pre. trace (snd (generateThumbnail env object (start fs))) = pre @ [(e, False)]
                \<and> allSucceeded pre)
       \<and> (artifactOf e = Some Transcode \<longrightarrow>
            Poster \<notin> artifacts (snd (generateThumbnail env object (start fs)))
            \<and> Preview \<notin> artifacts (snd (generateThumbnail env object (start fs))))"
  using failure_shape [OF assms] failed_transcode [OF assms] by blast

theorem failure_aborts_the_invocation_witness:
  "(ConvertFile Transcode ''/tmp/clips/a.mov'' ''/tmp/clips/a_output.mp4'' (Some ''100%''), False)
     \<in> set (trace (snd (generateThumbnail transcodeFails
                           (storageObject ''clips/a.mov'' ''video/quicktime'') (start {}))))
   \<and> (\<exists>err. fst (generateThumbnail transcodeFails
                    (storageObject ''clips/a.mov'' ''video/quicktime'') (start {})) = Throw err)
   \<and> (\<exists>pre. trace (snd (generateThumbnail transcodeFails
                            (storageObject ''clips/a.mov'' ''video/quicktime'') (start {})))
              = pre @ [(ConvertFile Transcode ''/tmp/clips/a.mov'' ''/tmp/clips/a_output.mp4''
                          (Some ''100%''), False)]
            \<and> allSucceeded pre)
   \<and> Poster \<notin> artifacts (snd (generateThumbnail transcodeFails
                                  (storageObject ''clips/a.mov'' ''video/quicktime'') (start {})))
   \<and> Preview \<notin> artifacts (snd (generateThumbnail transcodeFails
                                   (storageObject ''clips/a.mov'' ''video/quicktime'') (start {})))"
proof -
  have a: "(ConvertFile Transcode ''/tmp/clips/a.mov'' ''/tmp/clips/a_output.mp4'' (Some ''100%''),
            False)
     \<in> set (trace (snd (generateThumbnail transcodeFails
                           (storageObject ''clips/a.mov'' ''video/quicktime'') (start {}))))"
    by code_simp
  from failure_aborts_the_invocation [OF a] a
  show ?thesis by simp
qed

section \<open>The codec of a probed file\<close>

lemma getCodec_forEach_result:
  "snd (getCodec_forEach streams (v, st)) =
     (case st of
        Some u \<Rightarrow> Some u
      | None \<Rightarrow> map_option codec_name (find (\<lambda>s. codec_type s = ''video'') streams))"
  by (induction streams arbitrary: v st) (auto simp: resolve_def split: option.splits)

text \<open>
  The promise of \<open>getCodec\<close> is resolved with the codec name of the first stream whose
  type is \<open>video\<close>, whatever streams follow it, and is left unsettled when there is no
  such stream.
\<close>

lemma getCodec_result:
  "getCodec (Metadata streams) p w =
     (case find (\<lambda>s. codec_type s = ''video'') streams of
        None \<Rightarrow> (Hang, record_event (Ffprobe p) True w)
      | Some s \<Rightarrow> (Next (codec_name s), record_event (Ffprobe p) True w))"
  by (simp add: getCodec_def getCodec_forEach_result split: option.splits)

text \<open>
  Claim C8 says that a file without a video stream is reported with a null codec. In
  \<open>getCodec\<close> the variable starts as null, but \<open>resolve\<close> is called only inside the
  loop, at a video stream: for a file with a single audio stream the promise is never
  settled, and the invocation that awaits it never ends.
\<close>

theorem getCodec_without_video_stream_never_settles:
  "fst (getCodec (Metadata [audioStream]) ''/tmp/clips/a.mov'' (start {})) = Hang
   \<and> fst (generateThumbnail (allSucceed [audioStream])
            (storageObject ''clips/a.mov'' ''video/quicktime'') (start {})) = Hang"
  by code_simp

section \<open>Properties of double-precision rounding\<close>

lemma bitLength_bounds:
  "n > 0 \<Longrightarrow> 2 ^ (bitLength n - 1) \<le> n \<and> n < 2 ^ bitLength n"
proof (induction n rule: bitLength.induct)
  case (1 n)
  show ?case
  proof (cases "n div 2 = 0")
    case True
    with 1(2) have "n = 1" by presburger
    then show ?thesis by (simp add: bitLength.simps)
  next
    case False
    then have pos: "n div 2 > 0" by simp
    from 1(1) [OF _ pos] 1(2)
    have ih: "2 ^ (bitLength (n div 2) - 1) \<le> n div 2" "n div 2 < 2 ^ bitLength (n div 2)"
      by simp_all
    have b: "bitLength n = Suc (bitLength (n div 2))"
      using 1(2) by (subst bitLength.simps) simp
    have bp: "bitLength (n div 2) > 0"
      using pos by (subst bitLength.simps) simp
    then obtain c where c: "bitLength (n div 2) = Suc c" by (cases "bitLength (n div 2)") auto
    from ih c have "2 * 2 ^ c \<le> 2 * (n div 2)" by simp
    then have lo: "2 ^ Suc c \<le> n" by simp
    from ih(2) have "Suc (n div 2) \<le> 2 ^ bitLength (n div 2)" by simp
    then have "2 * Suc (n div 2) \<le> 2 * 2 ^ bitLength (n div 2)" by simp
    then have hi: "n < 2 ^ Suc (bitLength (n div 2))" by simp
    from lo hi b c show ?thesis by simp
  qed
qed

lemma exponentOf_bounds:
  assumes "x > 0"
  shows "2 powi exponentOf x \<le> x" and "x < 2 powi (exponentOf x + 1)"
proof -
  have "2 powi exponentOf x \<le> x \<and> x < 2 powi (exponentOf x + 1)"
  proof (cases "x \<ge> 1")
    case True
    define n where "n = nat \<lfloor>x\<rfloor>"
    from True have n: "n > 0" "of_nat n \<le> x" "x < of_nat n + 1"
      unfolding n_def by (simp_all add: of_nat_nat) linarith+
    from bitLength_bounds [OF n(1)]
    have b: "2 ^ (bitLength n - 1) \<le> n" "n < 2 ^ bitLength n" by simp_all
    from b(2) have bp: "bitLength n > 0" by (cases "bitLength n") (use n(1) in auto)
    have pw: "(2 :: rat) ^ k = of_nat (2 ^ k)" for k by simp
    from b(1) have "(2 :: rat) ^ (bitLength n - 1) \<le> of_nat n"
      unfolding pw by (simp only: of_nat_le_iff)
    with n(2) have lo: "(2 :: rat) ^ (bitLength n - 1) \<le> x" by linarith
    from b(2) have "Suc n \<le> 2 ^ bitLength n" by simp
    then have "(of_nat (Suc n) :: rat) \<le> 2 ^ bitLength n"
      unfolding pw by (simp only: of_nat_le_iff)
    moreover have "(of_nat (Suc n) :: rat) = of_nat n + 1" by simp
    ultimately have hi: "x < (2 :: rat) ^ bitLength n" using n(3) by linarith
    have e: "exponentOf x = int (bitLength n - 1)"
      using True bp by (simp add: exponentOf_def n_def)
    have e1: "exponentOf x + 1 = int (bitLength n)"
      using e bp by simp
    show ?thesis unfolding e1 unfolding e using lo hi by (simp add: power_int_def)
  next
    case False
    with assms have x: "0 < x" "x < 1" by simp_all
    define y where "y = 1 / x"
    from x have y: "y > 1" by (simp add: y_def)
    define m where "m = nat (\<lceil>y\<rceil> - 1)"
    from y have c: "\<lceil>y\<rceil> \<ge> 2" by linarith
    then have m: "m > 0" "of_nat m < y" "y \<le> of_nat m + 1"
      unfolding m_def by (simp_all add: of_nat_nat) linarith+
    from bitLength_bounds [OF m(1)]
    have b: "2 ^ (bitLength m - 1) \<le> m" "m < 2 ^ bitLength m" by simp_all
    from b(2) have bp: "bitLength m > 0" by (cases "bitLength m") (use m(1) in auto)
    have pw: "(2 :: rat) ^ k = of_nat (2 ^ k)" for k by simp
    from b(1) have "(2 :: rat) ^ (bitLength m - 1) \<le> of_nat m"
      unfolding pw by (simp only: of_nat_le_iff)
    with m(2) have lo: "(2 :: rat) ^ (bitLength m - 1) < y" by linarith
    from b(2) have "Suc m \<le> 2 ^ bitLength m" by simp
    then have "(of_nat (Suc m) :: rat) \<le> 2 ^ bitLength m"
      unfolding pw by (simp only: of_nat_le_iff)
    moreover have "(of_nat (Suc m) :: rat) = of_nat m + 1" by simp
    ultimately have hi: "y \<le> (2 :: rat) ^ bitLength m" using m(3) by linarith
    have e: "exponentOf x = - int (bitLength m)"
      using False by (simp add: exponentOf_def m_def y_def)
    have e1: "exponentOf x + 1 = - int (bitLength m - 1)"
      using e bp by simp
    have pm: "(2 :: rat) powi (- int k) = 1 / 2 ^ k" for k
      by (simp add: power_int_minus field_simps)
    from hi x have "1 / (2 :: rat) ^ bitLength m \<le> x"
      unfolding y_def by (simp add: field_simps)
    moreover from lo x have "x < 1 / (2 :: rat) ^ (bitLength m - 1)"
      unfolding y_def by (simp add: field_simps)
    ultimately show ?thesis
      unfolding e1 unfolding e pm by (rule conjI)
  qed
  then show "2 powi exponentOf x \<le> x" and "x < 2 powi (exponentOf x + 1)" by simp_all
qed

lemma roundHalfEven_error: "\<bar>of_int (roundHalfEven s) - s\<bar> \<le> 1 / 2"
proof -
  have f: "of_int \<lfloor>s\<rfloor> \<le> s" "s < of_int \<lfloor>s\<rfloor> + 1" by linarith+
  consider "s - of_int \<lfloor>s\<rfloor> < 1 / 2" | "s - of_int \<lfloor>s\<rfloor> > 1 / 2"
    | "s - of_int \<lfloor>s\<rfloor> = 1 / 2" by linarith
  then show ?thesis
  proof cases
    case 1
    then have "roundHalfEven s = \<lfloor>s\<rfloor>" by (simp add: roundHalfEven_def Let_def)
    moreover have "\<bar>of_int \<lfloor>s\<rfloor> - s\<bar> \<le> 1 / 2" using 1 f by linarith
    ultimately show ?thesis by simp
  next
    case 2
    then have "roundHalfEven s = \<lfloor>s\<rfloor> + 1" by (simp add: roundHalfEven_def Let_def)
    moreover have "\<bar>of_int \<lfloor>s\<rfloor> + 1 - s\<bar> \<le> 1 / 2" using 2 f by linarith
    ultimately show ?thesis by simp
  next
    case 3
    then have "roundHalfEven s = \<lfloor>s\<rfloor> \<or> roundHalfEven s = \<lfloor>s\<rfloor> + 1"
      by (simp add: roundHalfEven_def Let_def)
    moreover have "\<bar>of_int \<lfloor>s\<rfloor> - s\<bar> \<le> 1 / 2" using 3 f by linarith
    moreover have "\<bar>of_int \<lfloor>s\<rfloor> + 1 - s\<bar> \<le> 1 / 2" using 3 f by linarith
    ultimately show ?thesis by auto
  qed
qed

text \<open>The relative error of rounding is at most \<open>2\<^sup>-\<^sup>5\<^sup>3\<close>.\<close>

lemma double_error: "\<bar>double x - x\<bar> \<le> \<bar>x\<bar> / 2 ^ 53"
proof (cases "x = 0")
  case True
  then show ?thesis by (simp add: double_def)
next
  case False
  define a where "a = \<bar>x\<bar>"
  define e where "e = exponentOf a"
  define s where "s = a * 2 powi (52 - e)"
  from False have a: "a > 0" by (simp add: a_def)
  have p: "(2 :: rat) powi (52 - e) * 2 powi (e - 52) = 1"
    by (simp add: power_int_add [symmetric])
  have q: "(2 :: rat) powi (e - 52) = 2 powi e / 2 ^ 52"
    by (simp add: power_int_diff)
  have "\<bar>of_int (roundHalfEven s) * 2 powi (e - 52) - a\<bar>
        = \<bar>(of_int (roundHalfEven s) - s) * 2 powi (e - 52)\<bar>"
    using p by (simp add: s_def algebra_simps)
  also have "\<dots> = \<bar>of_int (roundHalfEven s) - s\<bar> * 2 powi (e - 52)"
    by (simp add: abs_mult)
  also have "\<dots> \<le> 1 / 2 * 2 powi (e - 52)"
    by (intro mult_right_mono roundHalfEven_error) simp
  also have "\<dots> = 2 powi e / 2 ^ 53"
    by (simp add: q)
  also have "\<dots> \<le> a / 2 ^ 53"
    using exponentOf_bounds(1) [OF a] by (simp add: e_def divide_right_mono)
  finally have m: "\<bar>of_int (roundHalfEven s) * 2 powi (e - 52) - a\<bar> \<le> a / 2 ^ 53" .
  have dd: "double x = (if x < 0 then - (of_int (roundHalfEven s) * 2 powi (e - 52))
                        else of_int (roundHalfEven s) * 2 powi (e - 52))"
    unfolding s_def e_def a_def double_def Let_def using False by (simp only: if_False)
  show ?thesis
  proof (cases "x < 0")
    case True
    then have "double x = - (of_int (roundHalfEven s) * 2 powi (e - 52))"
      by (simp only: dd if_True)
    moreover from True have "x = - a" by (simp add: a_def)
    ultimately have "\<bar>double x - x\<bar> = \<bar>of_int (roundHalfEven s) * 2 powi (e - 52) - a\<bar>"
      by (simp add: abs_minus_commute)
    with m show ?thesis by (simp add: a_def)
  next
    case False
    then have "double x = of_int (roundHalfEven s) * 2 powi (e - 52)"
      by (simp only: dd if_False)
    moreover from False have "x = a" by (simp add: a_def)
    ultimately show ?thesis using m by simp
  qed
qed

text \<open>An integer below \<open>2\<^sup>5\<^sup>3\<close> in absolute value is a double.\<close>

lemma roundHalfEven_of_int: "roundHalfEven (of_int k) = k"
  by (simp add: roundHalfEven_def)

lemma double_of_int:
  assumes "\<bar>n\<bar> < 2 ^ 53"
  shows "double (of_int n) = of_int n"
proof (cases "n = 0")
  case True
  then show ?thesis by (simp add: double_def)
next
  case False
  define a :: rat where "a = \<bar>of_int n\<bar>"
  define e where "e = exponentOf a"
  from False have a: "a > 0" by (simp add: a_def)
  have an: "a = of_int \<bar>n\<bar>" by (simp add: a_def)
  have "a < of_int (2 ^ 53)" unfolding an using assms by (simp only: of_int_less_iff)
  then have "a < 2 powi 53" by simp
  with exponentOf_bounds(1) [OF a] have "(2 :: rat) powi e < 2 powi 53"
    unfolding e_def by (rule le_less_trans)
  then have "e < 53" by (rule power_int_le_imp_less_exp [rotated]) simp_all
  then have "0 \<le> 52 - e" by simp
  then obtain m :: nat where m: "52 - e = int m" by (rule nonneg_int_cases)
  have s: "a * 2 powi (52 - e) = of_int (\<bar>n\<bar> * 2 ^ m)"
    unfolding m an by (simp add: power_int_def)
  have p: "(2 :: rat) powi (52 - e) * 2 powi (e - 52) = 1"
    by (simp add: power_int_add [symmetric])
  have "of_int (roundHalfEven (a * 2 powi (52 - e))) * 2 powi (e - 52)
        = a * 2 powi (52 - e) * 2 powi (e - 52)"
    unfolding s roundHalfEven_of_int ..
  also have "\<dots> = a * (2 powi (52 - e) * 2 powi (e - 52))" by (simp only: mult.assoc)
  also have "\<dots> = a" unfolding p by simp
  finally have m': "of_int (roundHalfEven (a * 2 powi (52 - e))) * 2 powi (e - 52) = a" .
  have nz: "(of_int n :: rat) \<noteq> 0" using False by simp
  have "double (of_int n) =
          (if (of_int n :: rat) < 0
           then - (of_int (roundHalfEven (a * 2 powi (52 - e))) * 2 powi (e - 52))
           else of_int (roundHalfEven (a * 2 powi (52 - e))) * 2 powi (e - 52))"
    unfolding a_def e_def double_def Let_def using nz by (simp only: if_False)
  then have dd: "double (of_int n) = (if (of_int n :: rat) < 0 then - a else a)"
    unfolding m' .
  show ?thesis unfolding dd a_def by simp
qed

text \<open>
  The rounded percentage is within \<open>304 / 2\<^sup>5\<^sup>3\<close> of the exact quotient.
\<close>

lemma percentage_error:
  assumes "0 \<le> t" and "t < d" and "d < 2 ^ 53"
  shows "\<bar>reducePercentage (Some d) t - of_int (100 * t) / of_int d\<bar> \<le> 304 / 2 ^ 53"
proof -
  define u :: rat where "u = 1 / 2 ^ 53"
  have u: "0 < u" "u \<le> 1 / 100" by (simp_all add: u_def)
  have err: "\<bar>double a - a\<bar> \<le> \<bar>a\<bar> * u" for a
    using double_error [of a] by (simp add: u_def)
  from assms have d: "(of_int d :: rat) > 0" by simp
  define x :: rat where "x = (of_int d - of_int t) / of_int d"
  have x: "0 < x" "x \<le> 1"
    using assms d by (simp_all add: x_def)
  have v: "100 - x * 100 = of_int (100 * t) / of_int d"
    using d by (simp add: x_def field_simps)
  define p where "p = double x * 100"
  define y where "y = double p"
  define z where "z = 100 - y"
  have "\<bar>x\<bar> * u \<le> 1 * u"
    using x u by (intro mult_right_mono) simp_all
  with err [of x] have e1: "\<bar>double x - x\<bar> \<le> u" by simp
  then have e2: "\<bar>p - x * 100\<bar> \<le> 100 * u"
    unfolding p_def by linarith
  with x u have pb: "\<bar>p\<bar> \<le> 101" by linarith
  have "\<bar>p\<bar> * u \<le> 101 * u"
    using pb u by (intro mult_right_mono) simp_all
  with err [of p] have e3: "\<bar>y - p\<bar> \<le> 101 * u"
    unfolding y_def by linarith
  from e2 e3 have e4: "\<bar>z - (100 - x * 100)\<bar> \<le> 201 * u"
    unfolding z_def by linarith
  with x u have zb: "\<bar>z\<bar> \<le> 103" by linarith
  have "\<bar>z\<bar> * u \<le> 103 * u"
    using zb u by (intro mult_right_mono) simp_all
  with err [of z] have e5: "\<bar>double z - z\<bar> \<le> 103 * u" by linarith
  from e4 e5 have "\<bar>double z - (100 - x * 100)\<bar> \<le> 304 * u" by linarith
  moreover have "reducePercentage (Some d) t = double z"
  proof -
    from assms have "\<bar>d - t\<bar> < 2 ^ 53" by simp
    from double_of_int [OF this]
    have "double (of_int d - of_int t) = of_int d - of_int t" by simp
    with assms(2) show ?thesis
      by (simp add: reducePercentage_def greaterThan_js_def z_def y_def p_def x_def)
  qed
  ultimately show ?thesis
    unfolding v by (simp add: u_def)
qed

lemma floor_percentage_no_divisor:
  assumes "4 \<le> t" and "t \<le> 1000" and "t < d" and "d < 2 ^ 53" and "\<not> d dvd 100 * t"
  shows "\<lfloor>reducePercentage (Some d) t\<rfloor> = 100 * t div d"
proof -
  define q where "q = 100 * t div d"
  define r where "r = 100 * t mod d"
  define a :: rat where "a = of_int (100 * t)"
  define D :: rat where "D = of_int d"
  define v :: rat where "v = a / D"
  from assms have dpos: "d > 0" by simp
  then have D: "D > 0" by (simp add: D_def)
  have a: "400 \<le> a" "a \<le> 100000"
    using assms(1,2) by (simp_all add: a_def)
  have "r \<noteq> 0" using assms(5) by (simp add: r_def dvd_eq_mod_eq_0)
  moreover have "0 \<le> r" "r < d" using dpos by (simp_all add: r_def)
  ultimately have r: "1 \<le> r" "r + 1 \<le> d" by simp_all
  define R :: rat where "R = of_int r"
  have "(of_int 1 :: rat) \<le> of_int r" using r(1) by (simp only: of_int_le_iff)
  then have R1: "1 \<le> R" by (simp add: R_def)
  have "(of_int (r + 1) :: rat) \<le> of_int d" using r(2) by (simp only: of_int_le_iff)
  then have R2: "R + 1 \<le> D" by (simp add: R_def D_def)
  note R = R1 R2
  have "100 * t = q * d + r" by (simp add: q_def r_def)
  then have "a = of_int (q * d + r)" by (simp only: a_def)
  then have aq: "a = of_int q * D + R" by (simp add: D_def R_def)
  have veq: "v = of_int q + R / D"
    using D by (simp add: v_def aq field_simps)
  have rl: "1 / D \<le> R / D"
    using R(1) D by (simp add: divide_right_mono)
  have "R / D \<le> (D - 1) / D"
    using R(2) D by (intro divide_right_mono) simp_all
  also have "\<dots> = 1 - 1 / D"
    using D by (simp add: field_simps)
  finally have ru: "R / D \<le> 1 - 1 / D" .
  have err: "\<bar>reducePercentage (Some d) t - v\<bar> \<le> 304 / 2 ^ 53"
    unfolding v_def a_def D_def using assms by (intro percentage_error) simp_all
  have bounds: "of_int q \<le> reducePercentage (Some d) t \<and> reducePercentage (Some d) t < of_int q + 1"
  proof (cases "d \<le> 100 * t")
    case True
    then have "D \<le> a" unfolding D_def a_def by (simp only: of_int_le_iff)
    with a have "D \<le> 100000" by simp
    with D have "1 / 100000 \<le> 1 / D"
      by (simp add: field_simps)
    then have m: "304 / 2 ^ 53 < 1 / D" by simp
    from err m veq rl ru show ?thesis by linarith
  next
    case False
    then have "100 * t + 1 \<le> d" by simp
    then have "of_int (100 * t + 1) \<le> D" unfolding D_def by (simp only: of_int_le_iff)
    then have big: "a + 1 \<le> D" by (simp add: a_def)
    from False assms have qz: "q = 0" by (simp add: q_def div_pos_pos_trivial)
    have "100001 * a \<le> 100000 * D" using a big by linarith
    then have "a \<le> (100000 / 100001) * D" by simp
    then have vu: "v \<le> 100000 / 100001"
      unfolding v_def using D by (simp only: pos_divide_le_eq)
    have "D < of_int (2 ^ 53)"
      unfolding D_def using assms(4) by (simp only: of_int_less_iff)
    then have "D < 2 ^ 53" by simp
    with a have "(400 / 2 ^ 53) * D < a" by simp
    then have vl: "400 / 2 ^ 53 < v"
      unfolding v_def using D by (simp only: pos_less_divide_eq)
    have c: "(2 :: rat) ^ 53 = 9007199254740992" by simp
    from err vu vl have "0 \<le> reducePercentage (Some d) t" "reducePercentage (Some d) t < 1"
      unfolding c by linarith+
    with qz show ?thesis by simp
  qed
  then have "\<lfloor>reducePercentage (Some d) t\<rfloor> = q" by (simp add: floor_unique)
  then show ?thesis by (simp add: q_def)
qed

text \<open>
  When the dimension divides a hundred times the threshold, the quotient before rounding
  is \<open>(100 - k) / 100\<close> for the integer \<open>k\<close> that the exact percentage would be.
\<close>

lemma reducePercentage_of_divisor:
  assumes "0 \<le> t" and "t < d" and "d < 2 ^ 53" and "d * k = 100 * t"
  shows "reducePercentage (Some d) t = roundedPercentage k"
proof -
  from assms have d: "(of_int d :: rat) \<noteq> 0" by simp
  from assms have "\<bar>d - t\<bar> < 2 ^ 53" by simp
  from double_of_int [OF this]
  have i: "double (of_int d - of_int t) = of_int d - of_int t" by simp
  have "(of_int (d * k) :: rat) = of_int (100 * t)" by (simp only: assms(4))
  then have "(of_int d :: rat) * of_int k = 100 * of_int t" by simp
  then have q: "(of_int d - of_int t) / of_int d = ((100 - of_int k) / 100 :: rat)"
    using d by (simp add: field_simps)
  have "reducePercentage (Some d) t
        = double (100 - double (double (double (of_int d - of_int t) / of_int d) * 100))"
    using assms(2) by (simp only: reducePercentage_def greaterThan_js_def option.case if_True)
  also have "\<dots> = roundedPercentage k"
    unfolding i q roundedPercentage_def ..
  finally show ?thesis .
qed

lemma roundedPercentage_1: "\<lfloor>roundedPercentage 1\<rfloor> = 1"
  by code_simp

lemma roundedPercentage_2: "\<lfloor>roundedPercentage 2\<rfloor> = 2"
  by code_simp

lemma roundedPercentage_3: "\<lfloor>roundedPercentage 3\<rfloor> = 3"
  by code_simp

lemma roundedPercentage_4: "\<lfloor>roundedPercentage 4\<rfloor> = 4"
  by code_simp

lemma roundedPercentage_5: "\<lfloor>roundedPercentage 5\<rfloor> = 5"
  by code_simp

lemma roundedPercentage_6: "\<lfloor>roundedPercentage 6\<rfloor> = 6"
  by code_simp

lemma roundedPercentage_8: "\<lfloor>roundedPercentage 8\<rfloor> = 8"
  by code_simp

lemma roundedPercentage_10: "\<lfloor>roundedPercentage 10\<rfloor> = 10"
  by code_simp

lemma roundedPercentage_12: "\<lfloor>roundedPercentage 12\<rfloor> = 12"
  by code_simp

lemma roundedPercentage_15: "\<lfloor>roundedPercentage 15\<rfloor> = 15"
  by code_simp

lemma roundedPercentage_16: "\<lfloor>roundedPercentage 16\<rfloor> = 16"
  by code_simp

lemma roundedPercentage_17: "\<lfloor>roundedPercentage 17\<rfloor> = 17"
  by code_simp

lemma roundedPercentage_20: "\<lfloor>roundedPercentage 20\<rfloor> = 20"
  by code_simp

lemma roundedPercentage_24: "\<lfloor>roundedPercentage 24\<rfloor> = 24"
  by code_simp

lemma roundedPercentage_25: "\<lfloor>roundedPercentage 25\<rfloor> = 25"
  by code_simp

lemma roundedPercentage_30: "\<lfloor>roundedPercentage 30\<rfloor> = 30"
  by code_simp

lemma roundedPercentage_32: "\<lfloor>roundedPercentage 32\<rfloor> = 32"
  by code_simp

lemma roundedPercentage_34: "\<lfloor>roundedPercentage 34\<rfloor> = 34"
  by code_simp

lemma roundedPercentage_40: "\<lfloor>roundedPercentage 40\<rfloor> = 40"
  by code_simp

lemma roundedPercentage_48: "\<lfloor>roundedPercentage 48\<rfloor> = 48"
  by code_simp

lemma roundedPercentage_50: "\<lfloor>roundedPercentage 50\<rfloor> = 50"
  by code_simp

lemma roundedPercentage_60: "\<lfloor>roundedPercentage 60\<rfloor> = 60"
  by code_simp

lemma roundedPercentage_64: "\<lfloor>roundedPercentage 64\<rfloor> = 64"
  by code_simp

lemma roundedPercentage_68: "\<lfloor>roundedPercentage 68\<rfloor> = 68"
  by code_simp

lemma roundedPercentage_75: "\<lfloor>roundedPercentage 75\<rfloor> = 75"
  by code_simp

lemma roundedPercentage_80: "\<lfloor>roundedPercentage 80\<rfloor> = 80"
  by code_simp

lemma roundedPercentage_85: "\<lfloor>roundedPercentage 85\<rfloor> = 85"
  by code_simp

lemma roundedPercentage_96: "\<lfloor>roundedPercentage 96\<rfloor> = 96"
  by code_simp

lemmas roundedPercentage_values =
  roundedPercentage_1 roundedPercentage_2 roundedPercentage_3 roundedPercentage_4
  roundedPercentage_5 roundedPercentage_6 roundedPercentage_8 roundedPercentage_10
  roundedPercentage_12 roundedPercentage_15 roundedPercentage_16 roundedPercentage_17
  roundedPercentage_20 roundedPercentage_24 roundedPercentage_25 roundedPercentage_30
  roundedPercentage_32 roundedPercentage_34 roundedPercentage_40 roundedPercentage_48
  roundedPercentage_50 roundedPercentage_60 roundedPercentage_64 roundedPercentage_68
  roundedPercentage_75 roundedPercentage_80 roundedPercentage_85 roundedPercentage_96

lemma small_divisors:
  assumes "1 \<le> k" and "k \<le> 99" and "k dvd (48000 :: int) \<or> k dvd 42500"
  shows "k \<in> {1, 2, 3, 4, 5, 6, 8, 10, 12, 15, 16, 17, 20, 24, 25, 30, 32, 34, 40, 48, 50, 60, 64, 68, 75, 80, 85, 96}"
proof -
  from assms(1,2) have "k = 1 \<or> k = 2 \<or> k = 3 \<or> k = 4 \<or> k = 5 \<or> k = 6 \<or> k = 7 \<or> k = 8 \<or> k = 9 \<or> k = 10 \<or> k = 11 \<or> k = 12 \<or> k = 13 \<or> k = 14 \<or> k = 15 \<or> k = 16 \<or> k = 17 \<or> k = 18 \<or> k = 19 \<or> k = 20 \<or> k = 21 \<or> k = 22 \<or> k = 23 \<or> k = 24 \<or> k = 25 \<or> k = 26 \<or> k = 27 \<or> k = 28 \<or> k = 29 \<or> k = 30 \<or> k = 31 \<or> k = 32 \<or> k = 33 \<or> k = 34 \<or> k = 35 \<or> k = 36 \<or> k = 37 \<or> k = 38 \<or> k = 39 \<or> k = 40 \<or> k = 41 \<or> k = 42 \<or> k = 43 \<or> k = 44 \<or> k = 45 \<or> k = 46 \<or> k = 47 \<or> k = 48 \<or> k = 49 \<or> k = 50 \<or> k = 51 \<or> k = 52 \<or> k = 53 \<or> k = 54 \<or> k = 55 \<or> k = 56 \<or> k = 57 \<or> k = 58 \<or> k = 59 \<or> k = 60 \<or> k = 61 \<or> k = 62 \<or> k = 63 \<or> k = 64 \<or> k = 65 \<or> k = 66 \<or> k = 67 \<or> k = 68 \<or> k = 69 \<or> k = 70 \<or> k = 71 \<or> k = 72 \<or> k = 73 \<or> k = 74 \<or> k = 75 \<or> k = 76 \<or> k = 77 \<or> k = 78 \<or> k = 79 \<or> k = 80 \<or> k = 81 \<or> k = 82 \<or> k = 83 \<or> k = 84 \<or> k = 85 \<or> k = 86 \<or> k = 87 \<or> k = 88 \<or> k = 89 \<or> k = 90 \<or> k = 91 \<or> k = 92 \<or> k = 93 \<or> k = 94 \<or> k = 95 \<or> k = 96 \<or> k = 97 \<or> k = 98 \<or> k = 99"
    by presburger
  then show ?thesis using assms(3) by (elim disjE) simp_all
qed

lemma floor_reducePercentage:
  assumes "t = 480 \<or> t = 425" and "t < d" and "d < 2 ^ 53"
  shows "\<lfloor>reducePercentage (Some d) t\<rfloor> = 100 * t div d"
proof (cases "d dvd 100 * t")
  case False
  with assms floor_percentage_no_divisor [of t d] show ?thesis by auto
next
  case True
  define k where "k = 100 * t div d"
  from True have dk: "d * k = 100 * t" by (simp add: k_def)
  from assms have t: "0 < t" and dpos: "0 < d" by auto
  have kpos: "1 \<le> k"
  proof (rule ccontr)
    assume "\<not> 1 \<le> k"
    then have "k \<le> 0" by simp
    with dpos have "d * k \<le> 0" by (simp add: mult_le_0_iff)
    with dk t show False by simp
  qed
  have k99: "k \<le> 99"
  proof (rule ccontr)
    assume "\<not> k \<le> 99"
    then have "100 \<le> k" by simp
    with dpos have "d * 100 \<le> d * k" by (intro mult_left_mono) simp_all
    with dk assms(2) show False by simp
  qed
  have "k dvd 100 * t" unfolding dk [symmetric] by simp
  with assms(1) have "k dvd 48000 \<or> k dvd 42500" by auto
  from small_divisors [OF kpos k99 this]
  have "\<lfloor>roundedPercentage k\<rfloor> = k"
    by (elim insertE emptyE) (simp_all only: roundedPercentage_values)
  moreover from assms t have "reducePercentage (Some d) t = roundedPercentage k"
    by (intro reducePercentage_of_divisor dk) simp_all
  ultimately show ?thesis by (simp add: k_def)
qed

section \<open>The preview of a video\<close>

lemma floor_min: "\<lfloor>min a b\<rfloor> = min \<lfloor>a\<rfloor> \<lfloor>b :: rat\<rfloor>"
proof (cases "a \<le> b")
  case True
  then have "\<lfloor>a\<rfloor> \<le> \<lfloor>b\<rfloor>" by (rule floor_mono)
  with True show ?thesis by (simp add: min_def)
next
  case False
  then have "\<lfloor>b\<rfloor> \<le> \<lfloor>a\<rfloor>" by (intro floor_mono) simp
  with False show ?thesis by (auto simp: min_def)
qed

text \<open>The percentage of the claim in exact arithmetic, rounded down.\<close>

lemma exact_percentage_floor:
  assumes "0 \<le> t" and "t < d"
  shows "\<lfloor>100 - ((of_int d - of_int t) / of_int d) * 100 :: rat\<rfloor> = 100 * t div d"
proof -
  from assms have "(of_int d :: rat) \<noteq> 0" by simp
  then have "100 - ((of_int d - of_int t) / of_int d) * 100 = (of_int (100 * t) / of_int d :: rat)"
    by (simp add: field_simps)
  then show ?thesis by (simp only: floor_divide_of_int_eq)
qed

text \<open>The rounded percentage of lines 120 to 128 as integer quotients.\<close>

lemma reduce_quotients:
  assumes "h < 2 ^ 53" and "w < 2 ^ 53"
  shows "reduce \<lparr>dim_width = Some w, dim_height = Some h\<rparr>
         = min (if h > 480 then 48000 div h else 0) (if w > 425 then 42500 div w else 0)"
proof -
  have hp: "\<lfloor>reducePercentage (Some h) 480\<rfloor> = (if h > 480 then 48000 div h else 0)"
    using floor_reducePercentage [of 480 h] assms(1)
    by (simp add: reducePercentage_def greaterThan_js_def)
  have wp: "\<lfloor>reducePercentage (Some w) 425\<rfloor> = (if w > 425 then 42500 div w else 0)"
    using floor_reducePercentage [of 425 w] assms(2)
    by (simp add: reducePercentage_def greaterThan_js_def)
  have "reduce \<lparr>dim_width = Some w, dim_height = Some h\<rparr>
        = \<lfloor>min (reducePercentage (Some h) 480) (reducePercentage (Some w) 425)\<rfloor>"
    by (simp add: reduce_def Let_def min_def)
  then show ?thesis by (simp only: floor_min hp wp)
qed

text \<open>
  A video invocation that runs to its end has made the preview exactly when the rounded
  percentage is positive.
\<close>

lemma completed_video_run_has_preview_iff:
  assumes "isVideo (object_contentType object)"
      and "generateThumbnail env object (start fs) = (Exit Completed, w)"
  shows "\<exists>s ss. dimensions_probe env = Metadata (s # ss)
          \<and> (Preview \<in> artifacts w \<longleftrightarrow> reduce \<lparr>dim_width = width s, dim_height = height s\<rparr> > 0)"
  using assms isVideo_not_isImage [OF assms(1)]
  by (auto simp: run_defs step_defs start_def Let_def artifacts_def List.map_filter_simps
      split: if_splits probe_outcome.splits option.splits list.splits)

text \<open>
  Claim C3. For integer dimensions that a double holds exactly (below \<open>2\<^sup>5\<^sup>3\<close>), the
  value that the program computes in double precision and rounds down equals the smaller
  of the two percentages \<open>100 - ((dimension - threshold) / dimension) * 100\<close> of exact
  arithmetic (threshold 480 for the height, 425 for the width, 0 when the dimension does
  not exceed its threshold), rounded down. The preview step works on a Preview artifact
  exactly when that value is positive, and then its first call converts the input with
  that value as the size in percent. A height of 960 with a width of 425 gives 0, with a
  width of 850 it gives 50.
\<close>

theorem preview_scale:
  assumes "h < 2 ^ 53" and "w < 2 ^ 53"
  shows "reduce \<lparr>dim_width = Some w, dim_height = Some h\<rparr>
     = \<lfloor>min (if h > 480 then 100 - ((of_int h - 480) / of_int h) * 100 else 0)
            (if w > 425 then 100 - ((of_int w - 425) / of_int w) * 100 else (0 :: rat))\<rfloor>
   \<and> (Preview \<in> artifacts (snd (previewStep env k p \<lparr>dim_width = Some w, dim_height = Some h\<rparr> (start fs)))
        \<longleftrightarrow> reduce \<lparr>dim_width = Some w, dim_height = Some h\<rparr> > 0)
   \<and> (reduce \<lparr>dim_width = Some w, dim_height = Some h\<rparr> > 0 \<longrightarrow>
        hd (trace (snd (previewStep env k p \<lparr>dim_width = Some w, dim_height = Some h\<rparr> (start fs))))
          = (ConvertFile Preview p (path_join (tmpdir env) (mp4FilePathThumb k))
               (Some (showInt (reduce \<lparr>dim_width = Some w, dim_height = Some h\<rparr>) @ ''%'')),
             convertThumb_ok env))
   \<and> reduce \<lparr>dim_width = Some 425, dim_height = Some 960\<rparr> = 0
   \<and> reduce \<lparr>dim_width = Some 850, dim_height = Some 960\<rparr> = 50"
proof -
  have eh: "\<lfloor>if h > 480 then 100 - ((of_int h - 480) / of_int h) * 100 else (0 :: rat)\<rfloor>
            = (if h > 480 then 48000 div h else 0)"
    using exact_percentage_floor [of 480 h] by simp
  have ew: "\<lfloor>if w > 425 then 100 - ((of_int w - 425) / of_int w) * 100 else (0 :: rat)\<rfloor>
            = (if w > 425 then 42500 div w else 0)"
    using exact_percentage_floor [of 425 w] by simp
  have 1: "reduce \<lparr>dim_width = Some w, dim_height = Some h\<rparr>
     = \<lfloor>min (if h > 480 then 100 - ((of_int h - 480) / of_int h) * 100 else 0)
            (if w > 425 then 100 - ((of_int w - 425) / of_int w) * 100 else (0 :: rat))\<rfloor>"
    unfolding floor_min eh ew by (rule reduce_quotients [OF assms])
  have 2: "Preview \<in> artifacts (snd (previewStep env k p d (start fs))) \<longleftrightarrow> reduce d > 0" for d
    by (simp add: previewStep_def step_defs artifacts_def start_def Let_def List.map_filter_simps)
  have 3: "reduce d > 0 \<Longrightarrow>
        hd (trace (snd (previewStep env k p d (start fs))))
          = (ConvertFile Preview p (path_join (tmpdir env) (mp4FilePathThumb k))
               (Some (showInt (reduce d) @ ''%'')), convertThumb_ok env)" for d
    by (simp add: previewStep_def step_defs start_def Let_def)
  have 4: "reduce \<lparr>dim_width = Some 425, dim_height = Some 960\<rparr> = 0"
    "reduce \<lparr>dim_width = Some 850, dim_height = Some 960\<rparr> = 50"
    by (simp_all add: reduce_quotients)
  from 1 2 3 4 show ?thesis by blast
qed

theorem preview_scale_witness:
  "(960 :: int) < 2 ^ 53 \<and> (850 :: int) < 2 ^ 53
   \<and> reduce \<lparr>dim_width = Some 850, dim_height = Some 960\<rparr> > 0
   \<and> Preview \<in> artifacts
        (snd (previewStep (allSucceed [hevcStream]) ''clips/a.mov'' ''/tmp/clips/a.mov''
                \<lparr>dim_width = Some 850, dim_height = Some 960\<rparr> (start {})))
   \<and> hd (trace (snd (previewStep (allSucceed [hevcStream]) ''clips/a.mov'' ''/tmp/clips/a.mov''
                        \<lparr>dim_width = Some 850, dim_height = Some 960\<rparr> (start {}))))
       = (ConvertFile Preview ''/tmp/clips/a.mov''
            (path_join ''/tmp'' (mp4FilePathThumb ''clips/a.mov'')) (Some ''50%''), True)"
proof -
  have a: "reduce \<lparr>dim_width = Some 850, dim_height = Some 960\<rparr> = 50"
    by (simp add: reduce_quotients)
  have b: "showInt 50 @ ''%'' = ''50%''"
    by code_simp
  have c: "tmpdir (allSucceed [hevcStream]) = ''/tmp''"
    "convertThumb_ok (allSucceed [hevcStream])"
    by (simp_all add: allSucceed_def)
  have d: "(960 :: int) < 2 ^ 53" "(850 :: int) < 2 ^ 53" by simp_all
  from preview_scale [OF d, of "allSucceed [hevcStream]" "''clips/a.mov''"
      "''/tmp/clips/a.mov''" "{}"] a b c
  show ?thesis by simp
qed

section \<open>Properties of paths\<close>

lemma splitSlash_segment: "CHR ''/'' \<notin> set s \<Longrightarrow> splitSlash s = [s]"
  by (induction s) auto

lemma splitSlash_nonempty: "splitSlash s \<noteq> []"
  by (induction s) (auto split: list.splits)

lemma splitSlash_append:
  "splitSlash (a @ CHR ''/'' # b) = splitSlash a @ splitSlash b"
  by (induction a) (auto split: list.splits simp: splitSlash_nonempty)

lemma dropWhile_slash_segment:
  assumes "r \<noteq> []" and "CHR ''/'' \<notin> set r"
  shows "dropWhile (\<lambda>c. c = CHR ''/'') (r @ ys) = r @ ys"
  using assms by (cases r) auto

lemma takeWhile_segment:
  assumes "CHR ''/'' \<notin> set r"
  shows "takeWhile (\<lambda>c. c \<noteq> CHR ''/'') (r @ CHR ''/'' # ys) = r"
    and "takeWhile (\<lambda>c. c \<noteq> CHR ''/'') r = r"
    and "dropWhile (\<lambda>c. c \<noteq> CHR ''/'') (r @ CHR ''/'' # ys) = CHR ''/'' # ys"
    and "dropWhile (\<lambda>c. c \<noteq> CHR ''/'') r = []"
  using assms by (induction r) auto

lemma basename_of_segment:
  assumes "b \<noteq> []" and "CHR ''/'' \<notin> set b"
  shows "path_basename b = b" and "path_basename (d @ CHR ''/'' # b) = b"
proof -
  have r: "rev b \<noteq> []" "CHR ''/'' \<notin> set (rev b)" using assms by simp_all
  show "path_basename b = b"
    using dropWhile_slash_segment [OF r, of "[]"]
    by (simp add: path_basename_def takeWhile_segment(2) [OF r(2)] del: set_rev)
  show "path_basename (d @ CHR ''/'' # b) = b"
    using dropWhile_slash_segment [OF r, of "CHR ''/'' # rev d"]
    by (simp add: path_basename_def takeWhile_segment(1) [OF r(2)] del: set_rev)
qed

text \<open>A key that does not end in a slash is its base name, or a directory part, a slash and
  the base name.\<close>

lemma key_decomposition:
  assumes "k \<noteq> []" and "last k \<noteq> CHR ''/''"
  obtains "k = path_basename k" "CHR ''/'' \<notin> set k"
  | d where "k = d @ CHR ''/'' # path_basename k"
proof -
  let ?r = "rev k"
  from assms have h: "hd ?r \<noteq> CHR ''/''" by (simp add: hd_rev)
  with assms(1) have dw: "dropWhile (\<lambda>c. c = CHR ''/'') ?r = ?r"
    by (cases ?r) auto
  then have b: "path_basename k = rev (takeWhile (\<lambda>c. c \<noteq> CHR ''/'') ?r)"
    by (simp add: path_basename_def)
  have split: "?r = takeWhile (\<lambda>c. c \<noteq> CHR ''/'') ?r @ dropWhile (\<lambda>c. c \<noteq> CHR ''/'') ?r"
    by simp
  show thesis
  proof (cases "dropWhile (\<lambda>c. c \<noteq> CHR ''/'') ?r")
    case Nil
    then have all: "\<forall>c \<in> set ?r. c \<noteq> CHR ''/''"
      by (simp add: dropWhile_eq_Nil_conv)
    then have "takeWhile (\<lambda>c. c \<noteq> CHR ''/'') ?r = ?r"
      by (simp add: takeWhile_eq_all_conv)
    with b all that(1) show thesis by auto
  next
    case (Cons c cs)
    then have "c = CHR ''/''"
      using hd_dropWhile [of "\<lambda>c. c \<noteq> CHR ''/''" "rev k"] by simp
    with Cons split have "?r = rev (path_basename k) @ CHR ''/'' # cs"
      using b by simp
    then have "rev (rev k) = rev (rev (path_basename k) @ CHR ''/'' # cs)"
      by (rule arg_cong)
    then have "k = rev cs @ CHR ''/'' # path_basename k"
      by simp
    with that(2) show thesis by blast
  qed
qed

lemma basename_is_segment:
  "CHR ''/'' \<notin> set (path_basename k)"
  by (auto simp: path_basename_def dest: set_takeWhileD)

lemma basename_nonempty:
  assumes "k \<noteq> []" and "last k \<noteq> CHR ''/''"
  shows "path_basename k \<noteq> []"
proof -
  from assms have "hd (rev k) \<noteq> CHR ''/''" by (simp add: hd_rev)
  with assms(1) show ?thesis
    by (cases "rev k") (auto simp: path_basename_def)
qed

lemma normalizeSegments_snoc:
  assumes "b \<noteq> []" and "b \<noteq> ''.''" and "b \<noteq> ''..''"
  shows "normalizeSegments a res (ss @ [b]) = normalizeSegments a res ss @ [b]"
  using assms by (induction ss arbitrary: res) auto

lemma joinSlash_snoc:
  "joinSlash (xs @ [b]) = (if xs = [] then b else joinSlash xs @ CHR ''/'' # b)"
  by (induction xs rule: joinSlash.induct) auto

lemma no_dot_not_dots: "CHR ''.'' \<notin> set b \<Longrightarrow> b \<noteq> ''.'' \<and> b \<noteq> ''..''"
  by auto

text \<open>Normalizing a path that ends in an ordinary segment.\<close>

lemma normalize_segment:
  assumes "b \<noteq> []" and "CHR ''/'' \<notin> set b" and "b \<noteq> ''.''" and "b \<noteq> ''..''"
  shows "path_normalize b = b"
proof -
  from assms have "hd b \<noteq> CHR ''/''" "last b \<noteq> CHR ''/''"
    by (metis hd_in_set, metis last_in_set)
  with assms show ?thesis
    by (simp add: path_normalize_def normalizeString_def splitSlash_segment)
qed

lemma normalize_dir_segment:
  assumes "b \<noteq> []" and "CHR ''/'' \<notin> set b" and "b \<noteq> ''.''" and "b \<noteq> ''..''"
  shows "path_normalize (d @ CHR ''/'' # b) =
           (if hd (d @ ''/'') = CHR ''/'' then ''/'' else [])
           @ joinSlash (normalizeSegments (hd (d @ ''/'') \<noteq> CHR ''/'') [] (splitSlash d) @ [b])"
proof -
  from assms have l: "last (d @ CHR ''/'' # b) \<noteq> CHR ''/''"
    by (metis last_in_set last_appendR last_ConsR list.distinct(1))
  have h: "hd (d @ CHR ''/'' # b) = hd (d @ ''/'')" by (cases d) auto
  have j: "joinSlash (xs @ [b]) \<noteq> []" for xs
    using assms(1) by (simp add: joinSlash_snoc)
  show ?thesis
    using assms l h j
    by (simp add: path_normalize_def normalizeString_def splitSlash_append splitSlash_segment
        normalizeSegments_snoc Let_def)
qed

lemma normalize_keeps_last_segment:
  assumes "b \<noteq> []" and "CHR ''/'' \<notin> set b" and "b \<noteq> ''.''" and "b \<noteq> ''..''"
      and "p = b \<or> (\<exists>d. p = d @ CHR ''/'' # b)"
  shows "path_normalize p = b \<or> (\<exists>d. path_normalize p = d @ CHR ''/'' # b)"
  using assms(5)
proof
  assume "p = b"
  with assms show ?thesis by (simp add: normalize_segment)
next
  assume "\<exists>d. p = d @ CHR ''/'' # b"
  then obtain d where p: "p = d @ CHR ''/'' # b" ..
  let ?n = "normalizeSegments (hd (d @ ''/'') \<noteq> CHR ''/'') [] (splitSlash d)"
  have "path_normalize p = (if hd (d @ ''/'') = CHR ''/'' then ''/'' else []) @ joinSlash (?n @ [b])"
    unfolding p by (rule normalize_dir_segment [OF assms(1-4)])
  then show ?thesis
    by (cases "?n = []"; cases "hd (d @ ''/'') = CHR ''/''") (auto simp: joinSlash_snoc)
qed

lemma join_keeps_last_segment:
  assumes "b \<noteq> []" and "CHR ''/'' \<notin> set b" and "b \<noteq> ''.''" and "b \<noteq> ''..''"
  shows "path_join d b = b \<or> (\<exists>d'. path_join d b = d' @ CHR ''/'' # b)"
proof (cases "d = []")
  case True
  with assms show ?thesis by (simp add: path_join_def normalize_segment)
next
  case False
  with assms(1) have "path_join d b = path_normalize (d @ CHR ''/'' # b)"
    by (simp add: path_join_def)
  with normalize_keeps_last_segment [OF assms, of "d @ CHR ''/'' # b"] show ?thesis by auto
qed

lemma basename_join_normalize:
  assumes "b \<noteq> []" and "CHR ''/'' \<notin> set b" and "b \<noteq> ''.''" and "b \<noteq> ''..''"
  shows "path_basename (path_normalize (path_join d b)) = b"
  using normalize_keeps_last_segment [OF assms join_keeps_last_segment [OF assms, of d]]
    basename_of_segment [OF assms(1,2)]
  by auto

text \<open>The directory part of a key whose base name is an ordinary segment.\<close>

lemma dropWhile_no_slash:
  assumes "CHR ''/'' \<notin> set r"
  shows "dropWhile (\<lambda>c. c \<noteq> CHR ''/'') (dropWhile (\<lambda>c. c = CHR ''/'') r) = []"
proof -
  from assms have "dropWhile (\<lambda>c. c = CHR ''/'') r = r" by (cases r) auto
  with takeWhile_segment(4) [OF assms] show ?thesis by simp
qed

lemma dirname_of_segment:
  assumes "b \<noteq> []" and "CHR ''/'' \<notin> set b"
  shows "path_dirname b = ''.''"
proof -
  from assms have h: "hd b \<noteq> CHR ''/''" by (cases b) auto
  have "CHR ''/'' \<notin> set (rev (tl b))"
    using assms by (cases b) auto
  from dropWhile_no_slash [OF this]
  have d: "dropWhile (\<lambda>c. c \<noteq> CHR ''/'') (dropWhile (\<lambda>c. c = CHR ''/'') (rev (tl b))) = []" .
  show ?thesis
    unfolding path_dirname_def Let_def d using assms(1) h by simp
qed

lemma dirname_of_dir_segment:
  assumes "b \<noteq> []" and "CHR ''/'' \<notin> set b"
  shows "path_dirname (d @ CHR ''/'' # b) =
           (if d = [] then ''/'' else if d = ''/'' then ''//'' else d)"
proof (cases d)
  case Nil
  have "CHR ''/'' \<notin> set (rev b)" using assms by simp
  from dropWhile_no_slash [OF this]
  have e: "dropWhile (\<lambda>c. c \<noteq> CHR ''/'')
          (dropWhile (\<lambda>c. c = CHR ''/'') (rev (tl (CHR ''/'' # b)))) = []"
    unfolding list.sel .
  have "path_dirname (CHR ''/'' # b) = ''/''"
    unfolding path_dirname_def Let_def e by simp
  with Nil show ?thesis by simp
next
  case (Cons c cs)
  have r: "rev b \<noteq> []" "CHR ''/'' \<notin> set (rev b)" using assms by simp_all
  have t: "rev (tl (d @ CHR ''/'' # b)) = rev b @ CHR ''/'' # rev cs"
    using Cons by simp
  have rest: "dropWhile (\<lambda>c. c \<noteq> CHR ''/'')
          (dropWhile (\<lambda>c. c = CHR ''/'') (rev (tl (d @ CHR ''/'' # b)))) = CHR ''/'' # rev cs"
    unfolding t dropWhile_slash_segment [OF r] takeWhile_segment(3) [OF r(2)] ..
  have tk: "take (length (CHR ''/'' # rev cs)) (d @ CHR ''/'' # b) = d"
    using Cons by simp
  have "path_dirname (d @ CHR ''/'' # b) =
          (if c = CHR ''/'' \<and> cs = [] then ''//'' else d)"
    unfolding path_dirname_def Let_def rest tk using Cons by simp
  with Cons show ?thesis by simp
qed

lemma join_dirname_basename:
  assumes "k \<noteq> []" and "last k \<noteq> CHR ''/''" and "CHR ''.'' \<notin> set (path_basename k)"
  shows "path_join (path_dirname k) (path_basename k) = path_normalize k"
proof -
  let ?b = "path_basename k"
  have b: "?b \<noteq> []" "CHR ''/'' \<notin> set ?b" "?b \<noteq> ''.''" "?b \<noteq> ''..''"
    using basename_nonempty [OF assms(1,2)] basename_is_segment [of k]
      no_dot_not_dots [OF assms(3)] by simp_all
  from b have hl: "hd ?b \<noteq> CHR ''/''" "last ?b \<noteq> CHR ''/''"
    by (metis hd_in_set, metis last_in_set)
  note norm = path_normalize_def normalizeString_def splitSlash_segment [OF b(2)]
  from assms(1,2) show ?thesis
  proof (cases rule: key_decomposition)
    case 1
    then have "path_dirname k = ''.''"
      using dirname_of_segment [OF b(1,2)] by simp
    moreover have "path_normalize (''./'' @ ?b) = path_normalize ?b"
      using b hl by (simp add: norm)
    ultimately show ?thesis using b(1) 1(1) by (simp add: path_join_def)
  next
    case (2 d)
    have dn: "path_dirname k = (if d = [] then ''/'' else if d = ''/'' then ''//'' else d)"
      using dirname_of_dir_segment [OF b(1,2), of d] 2 by simp
    have n1: "path_normalize (''//'' @ ?b) = path_normalize (''/'' @ ?b)"
      using b hl by (simp add: norm)
    have n2: "path_normalize (''///'' @ ?b) = path_normalize (''//'' @ ?b)"
      using b hl by (simp add: norm)
    show ?thesis
    proof (cases "d = []")
      case True
      with dn 2 n1 b(1) show ?thesis by (simp add: path_join_def)
    next
      case False
      show ?thesis
      proof (cases "d = ''/''")
        case True
        with dn 2 n2 b(1) show ?thesis by (simp add: path_join_def)
      next
        case False
        with \<open>d \<noteq> []\<close> dn have "path_dirname k = d" by simp
        with \<open>d \<noteq> []\<close> b(1) have "path_join (path_dirname k) ?b = path_normalize (d @ ''/'' @ ?b)"
          by (simp add: path_join_def)
        with 2 show ?thesis by simp
      qed
    qed
  qed
qed

lemma no_extension_if_no_dot:
  assumes "CHR ''.'' \<notin> set s"
  shows "\<not> hasExtension s"
proof -
  from assms have "\<forall>c \<in> set (rev s). c \<noteq> CHR ''.''" by auto
  then have tw: "takeWhile (\<lambda>c. c \<noteq> CHR ''.'') (rev s) = rev s"
    by (simp only: takeWhile_eq_all_conv)
  show ?thesis unfolding hasExtension_def Let_def tw by simp
qed

lemma no_extension_of_key:
  assumes "k \<noteq> []" and "last k \<noteq> CHR ''/''" and "CHR ''.'' \<notin> set (path_basename k)"
  shows "\<not> hasExtension k"
proof
  assume h: "hasExtension k"
  let ?ext = "takeWhile (\<lambda>c. c \<noteq> CHR ''.'') (rev k)"
  from h have e: "length ?ext < length k" "CHR ''/'' \<notin> set ?ext"
    by (simp_all add: hasExtension_def Let_def)
  have sp: "rev k = ?ext @ dropWhile (\<lambda>c. c \<noteq> CHR ''.'') (rev k)" by simp
  have ne: "dropWhile (\<lambda>c. c \<noteq> CHR ''.'') (rev k) \<noteq> []"
  proof
    assume "dropWhile (\<lambda>c. c \<noteq> CHR ''.'') (rev k) = []"
    with sp have "rev k = ?ext" by simp
    then have "length ?ext = length k" by (metis length_rev)
    with e(1) show False by simp
  qed
  then have "hd (dropWhile (\<lambda>c. c \<noteq> CHR ''.'') (rev k)) = CHR ''.''"
    using hd_dropWhile [of "\<lambda>c. c \<noteq> CHR ''.''" "rev k"] by simp
  with ne obtain cs where "dropWhile (\<lambda>c. c \<noteq> CHR ''.'') (rev k) = CHR ''.'' # cs"
    by (cases "dropWhile (\<lambda>c. c \<noteq> CHR ''.'') (rev k)") auto
  with sp have r: "rev k = ?ext @ CHR ''.'' # cs" by simp
  from assms(1,2) have "hd (rev k) \<noteq> CHR ''/''" by (simp add: hd_rev)
  with assms(1) have "dropWhile (\<lambda>c. c = CHR ''/'') (rev k) = rev k"
    by (cases "rev k") auto
  then have "path_basename k = rev (takeWhile (\<lambda>c. c \<noteq> CHR ''/'') (?ext @ CHR ''.'' # cs))"
    using r by (simp add: path_basename_def)
  also have "takeWhile (\<lambda>c. c \<noteq> CHR ''/'') (?ext @ CHR ''.'' # cs)
             = ?ext @ takeWhile (\<lambda>c. c \<noteq> CHR ''/'') (CHR ''.'' # cs)"
    using e(2) by (intro takeWhile_append2) auto
  finally have "CHR ''.'' \<in> set (path_basename k)" by simp
  with assms(3) show False by simp
qed

lemma startsWith_thumb: "startsWith (toLowerCase (''thumb_'' @ x)) ''thumb_''"
  by (simp add: toLowerCase_def lowerChar_def startsWith_def)

lemma endsWith_suffixes:
  "endsWith (toLowerCase (x @ ''_output.mp4'')) ''_output.mp4''"
  "endsWith (toLowerCase (x @ ''_thumb_output.mp4'')) ''_output.mp4''"
  "endsWith (toLowerCase (x @ ''_poster.jpg'')) ''_poster.jpg''"
proof -
  have "toLowerCase (x @ ''_output.mp4'') = toLowerCase x @ ''_output.mp4''"
    "toLowerCase (x @ ''_thumb_output.mp4'') = (toLowerCase x @ ''_thumb'') @ ''_output.mp4''"
    "toLowerCase (x @ ''_poster.jpg'') = toLowerCase x @ ''_poster.jpg''"
    by (simp_all add: toLowerCase_def lowerChar_def)
  then show "endsWith (toLowerCase (x @ ''_output.mp4'')) ''_output.mp4''"
    "endsWith (toLowerCase (x @ ''_thumb_output.mp4'')) ''_output.mp4''"
    "endsWith (toLowerCase (x @ ''_poster.jpg'')) ''_poster.jpg''"
    unfolding endsWith_def by (metis suffixI)+
qed

lemma basename_append_segment:
  assumes "s \<noteq> []" and "CHR ''/'' \<notin> set s"
  shows "path_basename (x @ s) = rev (takeWhile (\<lambda>c. c \<noteq> CHR ''/'') (rev x)) @ s"
proof -
  have r: "rev s \<noteq> []" "CHR ''/'' \<notin> set (rev s)" using assms by simp_all
  have "takeWhile (\<lambda>c. c \<noteq> CHR ''/'') (rev s @ rev x)
        = rev s @ takeWhile (\<lambda>c. c \<noteq> CHR ''/'') (rev x)"
    using r(2) by (intro takeWhile_append2) auto
  then show ?thesis
    unfolding path_basename_def rev_append dropWhile_slash_segment [OF r] by simp
qed

text \<open>The key of a thumbnail is recognised, whatever the key of the image.\<close>

lemma thumbnail_key_is_recognised:
  assumes "isImage ct"
  shows "isAlreadyDerived (thumbFilePath k) ct"
proof -
  let ?b = "THUMB_PREFIX @ path_basename k"
  have "?b \<noteq> []" "CHR ''/'' \<notin> set ?b" "?b \<noteq> ''.''" "?b \<noteq> ''..''"
    using basename_is_segment [of k] by (simp_all add: THUMB_PREFIX_def)
  then have "path_basename (thumbFilePath k) = ?b"
    unfolding thumbFilePath_def by (rule basename_join_normalize)
  then have "startsWith (toLowerCase (path_basename (thumbFilePath k))) THUMB_PREFIX"
    using startsWith_thumb [of "path_basename k"] by (simp only: THUMB_PREFIX_def)
  with assms show ?thesis by (simp add: isAlreadyDerived_def)
qed

lemma suffixed_name_is_segment:
  assumes "CHR ''/'' \<notin> set y" and "CHR ''/'' \<notin> set x" and "length x > 2"
  shows "y @ x \<noteq> []" "CHR ''/'' \<notin> set (y @ x)" "y @ x \<noteq> ''.''" "y @ x \<noteq> ''..''"
proof -
  from assms(3) show "y @ x \<noteq> []" by auto
  from assms(1,2) show "CHR ''/'' \<notin> set (y @ x)" by simp
  have len: "length (y @ x) > 2" using assms(3) by simp
  show "y @ x \<noteq> ''.''"
  proof
    assume e: "y @ x = ''.''"
    have "length (y @ x) = length ''.''" by (simp only: e)
    with len show False by simp
  qed
  show "y @ x \<noteq> ''..''"
  proof
    assume e: "y @ x = ''..''"
    have "length (y @ x) = length ''..''" by (simp only: e)
    with len show False by simp
  qed
qed

lemma replaced_extension_is_segment:
  assumes "CHR ''/'' \<notin> set b" and "CHR ''/'' \<notin> set x" and "length x > 2"
  shows "take n b @ x \<noteq> []" "CHR ''/'' \<notin> set (take n b @ x)"
    "take n b @ x \<noteq> ''.''" "take n b @ x \<noteq> ''..''"
proof -
  from assms(1) have "CHR ''/'' \<notin> set (take n b)" by (auto dest: in_set_takeD)
  from suffixed_name_is_segment [OF this assms(2,3)]
  show "take n b @ x \<noteq> []" "CHR ''/'' \<notin> set (take n b @ x)"
    "take n b @ x \<noteq> ''.''" "take n b @ x \<noteq> ''..''" .
qed

text \<open>
  The keys of the transcoded copy and of the preview are recognised when the base name of
  the video has an extension.
\<close>

lemma video_keys_are_recognised:
  assumes "isVideo ct" and "hasExtension (path_basename k)"
  shows "isAlreadyDerived (mp4FilePath k) ct" and "isAlreadyDerived (mp4FilePathThumb k) ct"
proof -
  let ?n = "length (path_basename k)
            - Suc (length (takeWhile (\<lambda>c. c \<noteq> CHR ''.'') (rev (path_basename k))))"
  have seg: "CHR ''/'' \<notin> set (path_basename k)" by (rule basename_is_segment)
  from assms(1) have v: "\<not> isImage ct" by (rule isVideo_not_isImage)
  have a: "path_basename (mp4FilePath k) = take ?n (path_basename k) @ ''_output.mp4''"
    unfolding mp4FilePath_def replaceExtension_def using assms(2)
    by (simp add: basename_join_normalize [OF replaced_extension_is_segment [OF seg]])
  have b: "path_basename (mp4FilePathThumb k) = take ?n (path_basename k) @ ''_thumb_output.mp4''"
    unfolding mp4FilePathThumb_def replaceExtension_def using assms(2)
    by (simp add: basename_join_normalize [OF replaced_extension_is_segment [OF seg]])
  have "endsWith (toLowerCase (path_basename (mp4FilePath k))) ''_output.mp4''"
    unfolding a by (rule endsWith_suffixes)
  then show "isAlreadyDerived (mp4FilePath k) ct"
    using assms(1) v by (simp add: isAlreadyDerived_def)
  have "endsWith (toLowerCase (path_basename (mp4FilePathThumb k))) ''_output.mp4''"
    unfolding b by (rule endsWith_suffixes)
  then show "isAlreadyDerived (mp4FilePathThumb k) ct"
    using assms(1) v by (simp add: isAlreadyDerived_def)
qed

text \<open>The key of the poster is recognised when the key of the video has an extension.\<close>

lemma poster_key_is_recognised:
  assumes "isImage ct" and "hasExtension k"
  shows "isAlreadyDerived (remotePath k) ct"
proof -
  let ?n = "length k - Suc (length (takeWhile (\<lambda>c. c \<noteq> CHR ''.'') (rev k)))"
  have r: "remotePath k = take ?n k @ ''_poster.jpg''"
    using assms(2) by (simp add: remotePath_def replaceExtension_def)
  have "path_basename (take ?n k @ ''_poster.jpg'')
        = rev (takeWhile (\<lambda>c. c \<noteq> CHR ''/'') (rev (take ?n k))) @ ''_poster.jpg''"
    by (rule basename_append_segment) simp_all
  then have "endsWith (toLowerCase (path_basename (remotePath k))) ''_poster.jpg''"
    unfolding r by (simp only: endsWith_suffixes)
  with assms(1) show ?thesis by (simp add: isAlreadyDerived_def)
qed

text \<open>
  The earlier variant removes the extension, if there is one, and then appends the suffix,
  so its own guard recognises the key of every transcoded copy.
\<close>

lemma earlier_transcode_key_is_recognised:
  "endsWith (path_basename (mp4FilePath_earlier k)) ''_output.mp4''"
proof -
  let ?y = "replaceExtension (path_basename k) []"
  have "CHR ''/'' \<notin> set ?y"
    using basename_is_segment [of k] by (auto simp: replaceExtension_def dest: in_set_takeD)
  then have "path_basename (mp4FilePath_earlier k) = ?y @ ''_output.mp4''"
    unfolding mp4FilePath_earlier_def
    by (intro basename_join_normalize suffixed_name_is_segment) simp_all
  then show ?thesis
    unfolding endsWith_def by (metis suffixI)
qed

lemma last_segment_split:
  obtains e b where "y = e @ b" and "CHR ''/'' \<notin> set b"
    and "e = [] \<or> (\<exists>e'. e = e' @ ''/'')"
proof -
  let ?b = "rev (takeWhile (\<lambda>c. c \<noteq> CHR ''/'') (rev y))"
  let ?e = "rev (dropWhile (\<lambda>c. c \<noteq> CHR ''/'') (rev y))"
  have "rev y = rev ?b @ rev ?e" by simp
  then have "rev y = rev (?e @ ?b)" by (simp only: rev_append)
  then have y: "y = ?e @ ?b" by (simp only: rev_is_rev_conv)
  have s: "CHR ''/'' \<notin> set ?b" by (auto dest: set_takeWhileD)
  have e: "?e = [] \<or> (\<exists>e'. ?e = e' @ ''/'')"
  proof (cases "dropWhile (\<lambda>c. c \<noteq> CHR ''/'') (rev y)")
    case Nil then show ?thesis by simp
  next
    case (Cons c cs)
    then have "c = CHR ''/''" using hd_dropWhile [of "\<lambda>c. c \<noteq> CHR ''/''" "rev y"] by auto
    with Cons show ?thesis by simp
  qed
  from y s e show ?thesis by (rule that)
qed

text \<open>
  \<open>path.join\<close> keeps the last segment of its second argument, when that segment is a
  name.
\<close>

lemma join_path_keeps_last_segment:
  assumes "b \<noteq> []" and "CHR ''/'' \<notin> set b" and "b \<noteq> ''.''" and "b \<noteq> ''..''"
      and "k = b \<or> (\<exists>e. k = e @ CHR ''/'' # b)"
  shows "path_join d k = b \<or> (\<exists>d'. path_join d k = d' @ CHR ''/'' # b)"
proof -
  from assms(1,5) have nz: "k \<noteq> []" by auto
  have "\<exists>p. path_join d k = path_normalize p \<and> (p = b \<or> (\<exists>d'. p = d' @ CHR ''/'' # b))"
  proof (cases "d = []")
    case True
    with nz have "path_join d k = path_normalize k"
      unfolding path_join_def by (simp only: if_False if_True simp_thms)
    with assms(5) show ?thesis by blast
  next
    case False
    with nz have j: "path_join d k = path_normalize (d @ CHR ''/'' # k)"
      unfolding path_join_def by (simp only: if_False simp_thms append.simps)
    from assms(5) have "\<exists>d'. d @ CHR ''/'' # k = d' @ CHR ''/'' # b"
    proof
      assume "k = b"
      then have "d @ CHR ''/'' # k = d @ CHR ''/'' # b" by (simp only:)
      then show ?thesis by blast
    next
      assume "\<exists>e. k = e @ CHR ''/'' # b"
      then obtain e where "k = e @ CHR ''/'' # b" ..
      then have "d @ CHR ''/'' # k = (d @ CHR ''/'' # e) @ CHR ''/'' # b"
        by (simp only: append.simps append_assoc)
      then show ?thesis by blast
    qed
    with j show ?thesis by blast
  qed
  then obtain p where p: "path_join d k = path_normalize p"
    "p = b \<or> (\<exists>d'. p = d' @ CHR ''/'' # b)" by blast
  from normalize_keeps_last_segment [OF assms(1-4) p(2)] p(1)
  show ?thesis by (simp only:)
qed

lemma basename_join_path:
  assumes "b \<noteq> []" and "CHR ''/'' \<notin> set b" and "b \<noteq> ''.''" and "b \<noteq> ''..''"
      and "k = b \<or> (\<exists>e. k = e @ CHR ''/'' # b)"
  shows "path_basename (path_join d k) = b"
  using join_path_keeps_last_segment [OF assms, of d] basename_of_segment [OF assms(1,2)]
  by auto

text \<open>
  A string that the pattern matches is a stem, a dot and an extension; \<open>replace\<close> puts
  its second argument in place of the dot and the extension.
\<close>

lemma extension_decomposition:
  assumes "hasExtension k"
  shows "\<exists>stem ext. k = stem @ CHR ''.'' # ext \<and> ext \<noteq> []
           \<and> CHR ''/'' \<notin> set ext \<and> CHR ''.'' \<notin> set ext
           \<and> (\<forall>x. replaceExtension k x = stem @ x)"
proof -
  let ?t = "takeWhile (\<lambda>c. c \<noteq> CHR ''.'') (rev k)"
  let ?d = "dropWhile (\<lambda>c. c \<noteq> CHR ''.'') (rev k)"
  let ?n = "length k - Suc (length ?t)"
  from assms have h: "length ?t < length k" "?t \<noteq> []" "CHR ''/'' \<notin> set ?t"
    by (simp_all add: hasExtension_def Let_def)
  have sp: "rev k = ?t @ ?d" by simp
  from h(1) have "?d \<noteq> []"
    by (metis append_Nil2 length_rev less_irrefl sp)
  then obtain c cs where d: "?d = c # cs" by (cases ?d) auto
  then have c: "c = CHR ''.''"
    using hd_dropWhile [of "\<lambda>c. c \<noteq> CHR ''.''" "rev k"] by auto
  have "rev k = ?t @ CHR ''.'' # cs" using sp d c by (simp only:)
  then have "rev (rev k) = rev (?t @ CHR ''.'' # cs)" by (simp only:)
  then have k: "k = rev cs @ CHR ''.'' # rev ?t" by simp
  have len: "length k = length cs + Suc (length ?t)"
    using arg_cong [OF k, of length] by simp
  have tk: "take ?n k = rev cs"
  proof -
    have "?n = length (rev cs)" using len by simp
    then have "take ?n (rev cs @ CHR ''.'' # rev ?t) = rev cs" by (simp only: append_eq_conv_conj take_all_iff order_refl take_append diff_self_eq_0 take_0 append_Nil2)
    with k show ?thesis by (simp only:)
  qed
  have r: "replaceExtension k x = rev cs @ x" for x
    using assms tk by (simp add: replaceExtension_def)
  have nd: "CHR ''.'' \<notin> set (rev ?t)" by (auto dest: set_takeWhileD)
  from h(2,3) nd have "rev ?t \<noteq> []" "CHR ''/'' \<notin> set (rev ?t)" "CHR ''.'' \<notin> set (rev ?t)"
    by simp_all
  with k r show ?thesis by blast
qed

text \<open>
  The poster of a key with an extension: its key is the stem followed by
  \<open>_poster.jpg\<close>, and its scratch file has that name and is not the scratch copy of the
  input.
\<close>

lemma poster_paths:
  assumes "hasExtension k"
  shows "\<exists>stem ext. k = stem @ CHR ''.'' # ext \<and> remotePath k = stem @ ''_poster.jpg''"
    and "endsWith (path_join d (remotePath k)) ''_poster.jpg''"
    and "path_join d (remotePath k) \<noteq> path_join d k"
proof -
  from extension_decomposition [OF assms]
  obtain stem ext where k: "k = stem @ CHR ''.'' # ext" and e: "ext \<noteq> []"
    "CHR ''/'' \<notin> set ext" "CHR ''.'' \<notin> set ext"
    and r': "\<forall>x. replaceExtension k x = stem @ x"
    by blast
  have r: "remotePath k = stem @ ''_poster.jpg''"
    unfolding remotePath_def using r' by blast
  from k r show "\<exists>stem ext. k = stem @ CHR ''.'' # ext \<and> remotePath k = stem @ ''_poster.jpg''"
    by blast
  obtain dir b0 where s: "stem = dir @ b0" and b0: "CHR ''/'' \<notin> set b0"
    and dir: "dir = [] \<or> (\<exists>e'. dir = e' @ ''/'')"
    by (rule last_segment_split)
  let ?br = "b0 @ ''_poster.jpg''"
  let ?bk = "b0 @ CHR ''.'' # ext"
  have segr: "?br \<noteq> []" "CHR ''/'' \<notin> set ?br" "?br \<noteq> ''.''" "?br \<noteq> ''..''"
    by (rule suffixed_name_is_segment [OF b0]; simp)+
  have segk: "?bk \<noteq> []" "CHR ''/'' \<notin> set ?bk" "?bk \<noteq> ''.''" "?bk \<noteq> ''..''"
  proof -
    show "?bk \<noteq> []" by simp
    show "CHR ''/'' \<notin> set ?bk" using b0 e(2) by simp
    show "?bk \<noteq> ''.''" using e(1) by (cases b0) auto
    show "?bk \<noteq> ''..''"
    proof
      assume a: "?bk = ''..''"
      have "last ?bk = last ext" using e(1) by simp
      with a have "last ext = CHR ''.''" by simp
      with e(1,3) show False by (metis last_in_set)
    qed
  qed
  have pr: "remotePath k = ?br \<or> (\<exists>e. remotePath k = e @ CHR ''/'' # ?br)"
    using dir
  proof
    assume "dir = []" with r s show ?thesis by simp
  next
    assume "\<exists>e'. dir = e' @ ''/''"
    then obtain e' where "dir = e' @ ''/''" ..
    with r s have "remotePath k = e' @ CHR ''/'' # ?br" by simp
    then show ?thesis by blast
  qed
  have pk: "k = ?bk \<or> (\<exists>e. k = e @ CHR ''/'' # ?bk)"
    using dir
  proof
    assume "dir = []" with k s show ?thesis by simp
  next
    assume "\<exists>e'. dir = e' @ ''/''"
    then obtain e' where "dir = e' @ ''/''" ..
    with k s have "k = e' @ CHR ''/'' # ?bk" by simp
    then show ?thesis by blast
  qed
  from join_path_keeps_last_segment [OF segr pr, of d]
  have "suffix ''_poster.jpg'' (path_join d (remotePath k))"
  proof
    assume "path_join d (remotePath k) = ?br"
    then show ?thesis unfolding suffix_def by blast
  next
    assume "\<exists>d'. path_join d (remotePath k) = d' @ CHR ''/'' # ?br"
    then obtain d' where "path_join d (remotePath k) = d' @ CHR ''/'' # ?br" ..
    then have "path_join d (remotePath k) = (d' @ CHR ''/'' # b0) @ ''_poster.jpg''" by simp
    then show ?thesis unfolding suffix_def by blast
  qed
  then show "endsWith (path_join d (remotePath k)) ''_poster.jpg''"
    by (simp only: endsWith_def)
  have br: "path_basename (path_join d (remotePath k)) = ?br"
    by (rule basename_join_path [OF segr pr])
  have bk: "path_basename (path_join d k) = ?bk"
    by (rule basename_join_path [OF segk pk])
  have "?br \<noteq> ?bk" by simp
  with br bk show "path_join d (remotePath k) \<noteq> path_join d k" by metis
qed

section \<open>Videos that are already h264\<close>

text \<open>
  Claim C6, as stated, says that every video probed as \<open>h264\<close> gets no transcoded copy
  but still gets a poster, a JPEG. The earlier variant of the function has no poster at
  all: it returns at the codec gate. In the function itself the poster is named by
  replacing the extension of the key by \<open>_poster.jpg\<close>, and nothing else asks for a
  JPEG; the key \<open>clips/holiday\<close> has no extension, so the poster is written onto the
  scratch copy of the input and uploaded to the key of the input.
\<close>

theorem h264_video_poster_is_missing_or_misnamed:
  "fst (generateThumbnail_earlier (allSucceed [audioStream, h264Stream])
          (storageObject ''clips/b.mp4'' ''video/mp4'') (start {})) = Exit CodecIsH264
   \<and> Poster \<notin> artifacts
        (snd (generateThumbnail_earlier (allSucceed [audioStream, h264Stream])
                (storageObject ''clips/b.mp4'' ''video/mp4'') (start {})))
   \<and> isVideo ''video/mp4'' \<and> \<not> isAlreadyDerived ''clips/holiday'' ''video/mp4''
   \<and> calls (\<lambda>e. artifactOf e = Some Poster)
        (snd (generateThumbnail (allSucceed [audioStream, h264Stream])
                (storageObject ''clips/holiday'' ''video/mp4'') (start {})))
       = [CreatePosterFromVideo Poster ''/tmp/clips/holiday'' ''/tmp/clips/holiday'' 1 1,
          Upload Poster ''/tmp/clips/holiday''
            \<lparr>destination = ''clips/holiday'', uploadType = Some ''media'',
             resumable = Some False, isPublic = False,
             metadata = [(''gzip'', ''true''),
                         (''cacheControl'', ''public, max-age=31536000'')]\<rparr>]
   \<and> \<not> endsWith (remotePath ''clips/holiday'') ''_poster.jpg''"
  by code_simp

text \<open>
  Claim C6, amended. For a video that is not already derived, whose key has an extension
  and whose first video stream is probed as \<open>h264\<close>, the invocation makes no call for a
  transcoded copy. It makes the call for the poster (seek to second 1, one frame), whose
  output is a scratch file with a name that ends with \<open>_poster.jpg\<close> and that is not
  the scratch copy of the input; when that call succeeds, the poster is uploaded under
  the key of the input with its extension replaced by \<open>_poster.jpg\<close>. The earlier
  variant of the function makes no artifact at all for such a video.
\<close>

theorem h264_video_with_extension_gets_jpeg_poster:
  assumes "isVideo (object_contentType object)"
      and "\<not> isAlreadyDerived (object_name object) (object_contentType object)"
      and "hasExtension (object_name object)"
      and "mkdirp_ok env" and "download_ok env"
      and "codec_probe env = Metadata streams"
      and "find (\<lambda>s. codec_type s = ''video'') streams = Some s"
      and "codec_name s = Some ''h264''"
  shows "Transcode \<notin> artifacts (snd (generateThumbnail env object (start fs)))
       \<and> (\<exists>stem ext. object_name object = stem @ CHR ''.'' # ext
             \<and> remotePath (object_name object) = stem @ ''_poster.jpg'')
       \<and> endsWith (path_join (tmpdir env) (remotePath (object_name object))) ''_poster.jpg''
       \<and> path_join (tmpdir env) (remotePath (object_name object))
           \<noteq> path_join (tmpdir env) (object_name object)
       \<and> (CreatePosterFromVideo Poster (path_join (tmpdir env) (object_name object))
             (path_join (tmpdir env) (remotePath (object_name object))) 1 1, poster_ok env)
           \<in> set (trace (snd (generateThumbnail env object (start fs))))
       \<and> (poster_ok env \<longrightarrow>
            (Upload Poster (path_join (tmpdir env) (remotePath (object_name object)))
               \<lparr>destination = remotePath (object_name object), uploadType = Some ''media'',
                resumable = Some False, isPublic = False,
                metadata = [(''gzip'', ''true''),
                            (''cacheControl'', ''public, max-age=31536000'')]\<rparr>,
             poster_upload_ok env)
              \<in> set (trace (snd (generateThumbnail env object (start fs)))))
       \<and> artifacts (snd (generateThumbnail_earlier env object (start fs))) = {}"
proof -
  note v = isVideo_not_isImage [OF assms(1)]
  have run: "Transcode \<notin> artifacts (snd (generateThumbnail env object (start fs)))
       \<and> (CreatePosterFromVideo Poster (path_join (tmpdir env) (object_name object))
             (path_join (tmpdir env) (remotePath (object_name object))) 1 1, poster_ok env)
           \<in> set (trace (snd (generateThumbnail env object (start fs))))
       \<and> (poster_ok env \<longrightarrow>
            (Upload Poster (path_join (tmpdir env) (remotePath (object_name object)))
               \<lparr>destination = remotePath (object_name object), uploadType = Some ''media'',
                resumable = Some False, isPublic = False,
                metadata = [(''gzip'', ''true''),
                            (''cacheControl'', ''public, max-age=31536000'')]\<rparr>,
             poster_upload_ok env)
              \<in> set (trace (snd (generateThumbnail env object (start fs)))))"
    using assms(1,2,4-8) v
    by (auto simp: run_defs isAlreadyDerived_def getCodec_result andThen_def return_def skip_def
        mkdirp_def download_def upload_def unlinkSync_def getDimentions_def convertFile_def
        createPosterFromVideo_def record_event_def start_def Let_def artifacts_def
        List.map_filter_simps
        split: if_splits probe_outcome.splits option.splits list.splits)
  have i: "\<not> startsWith (object_contentType object) ''image/''"
    using v isImage_if_startsWith by blast
  have earlier: "artifacts (snd (generateThumbnail_earlier env object (start fs))) = {}"
    using assms(4-8) i
    by (simp add: generateThumbnail_earlier_def videoBranch_earlier_def getCodec_result
        andThen_def return_def mkdirp_def download_def record_event_def start_def Let_def
        artifacts_def List.map_filter_simps)
  from run earlier poster_paths(1) [OF assms(3)]
    poster_paths(2,3) [OF assms(3), of "tmpdir env"]
  show ?thesis by blast
qed

theorem h264_video_with_extension_gets_jpeg_poster_witness:
  "isVideo ''video/mp4'' \<and> \<not> isAlreadyDerived ''clips/b.mp4'' ''video/mp4''
   \<and> hasExtension ''clips/b.mp4''
   \<and> find (\<lambda>s. codec_type s = ''video'') [audioStream, h264Stream] = Some h264Stream
   \<and> codec_name h264Stream = Some ''h264''
   \<and> Transcode \<notin> artifacts
        (snd (generateThumbnail (allSucceed [audioStream, h264Stream])
                (storageObject ''clips/b.mp4'' ''video/mp4'') (start {})))
   \<and> remotePath ''clips/b.mp4'' = ''clips/b_poster.jpg''
   \<and> path_join ''/tmp'' (remotePath ''clips/b.mp4'') = ''/tmp/clips/b_poster.jpg''
   \<and> endsWith (path_join ''/tmp'' (remotePath ''clips/b.mp4'')) ''_poster.jpg''
   \<and> path_join ''/tmp'' (remotePath ''clips/b.mp4'') \<noteq> path_join ''/tmp'' ''clips/b.mp4''
   \<and> (CreatePosterFromVideo Poster (path_join ''/tmp'' ''clips/b.mp4'')
         (path_join ''/tmp'' (remotePath ''clips/b.mp4'')) 1 1, True)
       \<in> set (trace (snd (generateThumbnail (allSucceed [audioStream, h264Stream])
                             (storageObject ''clips/b.mp4'' ''video/mp4'') (start {}))))
   \<and> (Upload Poster (path_join ''/tmp'' (remotePath ''clips/b.mp4''))
         \<lparr>destination = remotePath ''clips/b.mp4'', uploadType = Some ''media'',
          resumable = Some False, isPublic = False,
          metadata = [(''gzip'', ''true''), (''cacheControl'', ''public, max-age=31536000'')]\<rparr>,
       True)
       \<in> set (trace (snd (generateThumbnail (allSucceed [audioStream, h264Stream])
                             (storageObject ''clips/b.mp4'' ''video/mp4'') (start {}))))
   \<and> artifacts (snd (generateThumbnail_earlier (allSucceed [audioStream, h264Stream])
                       (storageObject ''clips/b.mp4'' ''video/mp4'') (start {}))) = {}"
proof -
  let ?env = "allSucceed [audioStream, h264Stream]"
  let ?object = "storageObject ''clips/b.mp4'' ''video/mp4''"
  have a: "isVideo ''video/mp4''" and b: "\<not> isAlreadyDerived ''clips/b.mp4'' ''video/mp4''"
    and h: "hasExtension ''clips/b.mp4''"
    and r: "remotePath ''clips/b.mp4'' = ''clips/b_poster.jpg''"
    and p: "path_join ''/tmp'' ''clips/b_poster.jpg'' = ''/tmp/clips/b_poster.jpg''"
    by code_simp+
  have c: "find (\<lambda>s. codec_type s = ''video'') [audioStream, h264Stream] = Some h264Stream"
    by (simp add: audioStream_def h264Stream_def)
  have d: "codec_name h264Stream = Some ''h264''"
    by (simp add: h264Stream_def)
  have e: "mkdirp_ok ?env" "download_ok ?env" "poster_ok ?env" "poster_upload_ok ?env"
    "tmpdir ?env = ''/tmp''" "codec_probe ?env = Metadata [audioStream, h264Stream]"
    by (simp_all add: allSucceed_def)
  have a': "isVideo (object_contentType ?object)"
    and b': "\<not> isAlreadyDerived (object_name ?object) (object_contentType ?object)"
    and h': "hasExtension (object_name ?object)"
    using a b h by simp_all
  from h264_video_with_extension_gets_jpeg_poster [OF a' b' h' e(1) e(2) e(6) c d, of "{}"]
    a b c d h r p e
  show ?thesis by simp
qed

section \<open>The keys of derived objects\<close>

text \<open>
  Claim C1 asks that every derived key is recognised as already derived. The function
  replaces the extension by the suffix of the artifact; a name without an extension is
  left as it is, so for the key \<open>clips/holiday\<close> the transcoded copy, the preview and the
  poster all get the key of the input itself, and none of them is recognised.
\<close>

theorem extensionless_derived_keys_are_not_recognised:
  "mp4FilePath ''clips/holiday'' = ''clips/holiday''
   \<and> \<not> isAlreadyDerived (mp4FilePath ''clips/holiday'') ''video/mp4''
   \<and> \<not> isAlreadyDerived (mp4FilePathThumb ''clips/holiday'') ''video/mp4''
   \<and> \<not> isAlreadyDerived (remotePath ''clips/holiday'') ''image/jpeg''"
  by code_simp

text \<open>
  Claim C10, as stated, says that the target keys equal the input key for every key whose
  base name has no dot. The target of the transcoded copy is normalized as a path, so for
  the key \<open>clips//holiday\<close> it is \<open>clips/holiday\<close>.
\<close>

theorem normalized_target_differs_from_key:
  "CHR ''.'' \<notin> set (path_basename ''clips//holiday'')
   \<and> mp4FilePath ''clips//holiday'' = ''clips/holiday''
   \<and> mp4FilePath ''clips//holiday'' \<noteq> ''clips//holiday''"
  by code_simp

text \<open>
  Claim C10, amended. For a key that \<open>path.normalize\<close> leaves unchanged, that does not
  end with a slash and whose base name contains no dot, the keys of the transcoded copy,
  of the preview and of the poster all equal the key of the input. When the codec is not
  \<open>h264\<close>, the transcoding step then calls the conversion with the scratch copy of the
  input as both its input and its output; if that call reports success, the file is
  uploaded to the key of the input, and if the upload succeeds the scratch copy is
  removed. Whether a conversion onto its own input can succeed is decided by ffmpeg,
  outside the function.
\<close>

theorem extensionless_key_is_its_own_target:
  assumes "path_normalize k = k" and "\<not> endsWith k ''/''"
      and "CHR ''.'' \<notin> set (path_basename k)"
  shows "mp4FilePath k = k \<and> mp4FilePathThumb k = k \<and> remotePath k = k
       \<and> (codec \<noteq> Some ''h264'' \<longrightarrow>
            trace (snd (transcodeStep env k (path_join (tmpdir env) k) codec (start fs)))
              = (ConvertFile Transcode (path_join (tmpdir env) k) (path_join (tmpdir env) k)
                   (Some ''100%''), convert_ok env)
                # (if convert_ok env
                   then (Upload Transcode (path_join (tmpdir env) k) (mediaUploadOptions k),
                         mp4_upload_ok env)
                        # (if mp4_upload_ok env
                           then [(UnlinkSync (path_join (tmpdir env) k), True)]
                           else [])
                   else []))"
proof -
  from assms(1) have k: "k \<noteq> []" by (auto simp: path_normalize_def)
  have l: "last k \<noteq> CHR ''/''"
  proof
    assume "last k = CHR ''/''"
    with k have "k = butlast k @ ''/''" by (metis append_butlast_last_id)
    then have "suffix ''/'' k" by (metis suffixI)
    with assms(2) show False by (simp add: endsWith_def)
  qed
  have j: "path_join (path_dirname k) (path_basename k) = k"
    using join_dirname_basename [OF k l assms(3)] assms(1) by simp
  have "\<not> hasExtension (path_basename k)"
    by (rule no_extension_if_no_dot [OF assms(3)])
  with j assms(1) have m: "mp4FilePath k = k" "mp4FilePathThumb k = k"
    by (simp_all add: mp4FilePath_def mp4FilePathThumb_def replaceExtension_def)
  have r: "remotePath k = k"
    using no_extension_of_key [OF k l assms(3)] by (simp add: remotePath_def replaceExtension_def)
  have "trace (snd (transcodeStep env k (path_join (tmpdir env) k) codec (start fs)))
              = (ConvertFile Transcode (path_join (tmpdir env) k) (path_join (tmpdir env) k)
                   (Some ''100%''), convert_ok env)
                # (if convert_ok env
                   then (Upload Transcode (path_join (tmpdir env) k) (mediaUploadOptions k),
                         mp4_upload_ok env)
                        # (if mp4_upload_ok env
                           then [(UnlinkSync (path_join (tmpdir env) k), True)]
                           else [])
                   else [])"
    if "codec \<noteq> Some ''h264''"
    using that by (simp add: transcodeStep_def m step_defs start_def Let_def)
  with m r show ?thesis by blast
qed

theorem extensionless_key_is_its_own_target_witness:
  "path_normalize ''clips/holiday'' = ''clips/holiday'' \<and> \<not> endsWith ''clips/holiday'' ''/''
   \<and> CHR ''.'' \<notin> set (path_basename ''clips/holiday'')
   \<and> mp4FilePath ''clips/holiday'' = ''clips/holiday''
   \<and> mp4FilePathThumb ''clips/holiday'' = ''clips/holiday''
   \<and> remotePath ''clips/holiday'' = ''clips/holiday''
   \<and> path_join ''/tmp'' ''clips/holiday'' = ''/tmp/clips/holiday''
   \<and> trace (snd (transcodeStep transcodeFails ''clips/holiday''
                    (path_join ''/tmp'' ''clips/holiday'') (Some ''hevc'') (start {})))
       = [(ConvertFile Transcode ''/tmp/clips/holiday'' ''/tmp/clips/holiday''
             (Some ''100%''), False)]"
proof -
  have a: "path_normalize ''clips/holiday'' = ''clips/holiday''"
    and b: "\<not> endsWith ''clips/holiday'' ''/''"
    and c: "CHR ''.'' \<notin> set (path_basename ''clips/holiday'')"
    and p: "path_join ''/tmp'' ''clips/holiday'' = ''/tmp/clips/holiday''"
    by code_simp+
  have e: "tmpdir transcodeFails = ''/tmp''" "\<not> convert_ok transcodeFails"
    by (simp_all add: transcodeFails_def allSucceed_def)
  from extensionless_key_is_its_own_target [OF a b c, of "Some ''hevc''" transcodeFails "{}"]
    a b c e p
  show ?thesis by simp
qed

end
